theory Spec2Isabelle
  imports Main "HOL-Library.Word"
begin

unbundle bit_operations_syntax

section \<open>Bytes, files and Python errors\<close>

text \<open>
  Both tools work on whole files held as byte strings. A byte is an 8-bit word; Python's
  unbounded integers are \<open>int\<close> (or \<open>nat\<close> where the source only ever holds an unsigned
  value). Every exception the source can raise is a value of \<open>py_error\<close>.
\<close>

type_synonym byte = "8 word"

type_synonym pystr = "nat list"
  \<comment> \<open>a Python \<open>str\<close>: the list of its code points\<close>

datatype py_error = IndexError | StructError | OSError | UnicodeDecodeError | ValueError

definition py_str :: "string \<Rightarrow> pystr" where
  "py_str s = map of_char s"

definition le_nat :: "byte list \<Rightarrow> nat" where
  \<comment> \<open>the little-endian value of a byte string\<close>
  "le_nat bs = foldr (\<lambda>b acc. unat b + 256 * acc) bs 0"

definition file_read :: "byte list \<Rightarrow> int \<Rightarrow> nat \<Rightarrow> py_error + byte list" where
  \<comment> \<open>\<open>file.seek(off); file.read(n)\<close>: a negative seek raises, a read at the end is short\<close>
  "file_read f off n = (if off < 0 then Inl OSError else Inr (take n (drop (nat off) f)))"

definition unpack_fixed :: "nat \<Rightarrow> py_error + byte list \<Rightarrow> py_error + nat" where
  \<comment> \<open>\<open>struct.unpack\<close> of one unsigned little-endian field of \<open>n\<close> bytes\<close>
  "unpack_fixed n r = (case r of Inl e \<Rightarrow> Inl e
     | Inr bs \<Rightarrow> if length bs \<noteq> n then Inl StructError else Inr (le_nat bs))"

definition to_signed :: "nat \<Rightarrow> nat \<Rightarrow> int" where
  \<comment> \<open>two's complement reading of an unsigned \<open>w\<close>-bit value\<close>
  "to_signed w v = (if v \<ge> 2 ^ (w - 1) then int v - 2 ^ w else int v)"

section \<open>ExPac: the archive view\<close>

definition read_int16 :: "byte list \<Rightarrow> int \<Rightarrow> py_error + int" where
  "read_int16 f off = (case unpack_fixed 2 (file_read f off 2) of Inl e \<Rightarrow> Inl e
     | Inr v \<Rightarrow> Inr (to_signed 16 v))"

definition read_byte :: "byte list \<Rightarrow> int \<Rightarrow> py_error + int" where
  "read_byte f off = (case unpack_fixed 1 (file_read f off 1) of Inl e \<Rightarrow> Inl e
     | Inr v \<Rightarrow> Inr (int v))"

definition read_uint32 :: "byte list \<Rightarrow> int \<Rightarrow> py_error + int" where
  "read_uint32 f off = (case unpack_fixed 4 (file_read f off 4) of Inl e \<Rightarrow> Inl e
     | Inr v \<Rightarrow> Inr (int v))"

definition read_int64 :: "byte list \<Rightarrow> int \<Rightarrow> py_error + int" where
  "read_int64 f off = (case unpack_fixed 8 (file_read f off 8) of Inl e \<Rightarrow> Inl e
     | Inr v \<Rightarrow> Inr (to_signed 64 v))"

definition rstrip_nul :: "pystr \<Rightarrow> pystr" where
  "rstrip_nul s = rev (dropWhile (\<lambda>c. c = 0) (rev s))"

definition read_string ::
  "(byte list \<Rightarrow> pystr option) \<Rightarrow> byte list \<Rightarrow> int \<Rightarrow> nat \<Rightarrow> py_error + pystr" where
  \<comment> \<open>\<open>decode\<close> stands for Python's \<open>bytes.decode('utf-8')\<close>, \<open>None\<close> when it raises\<close>
  "read_string decode f off n = (case file_read f off n of Inl e \<Rightarrow> Inl e
     | Inr bs \<Rightarrow> (case decode bs of None \<Rightarrow> Inl UnicodeDecodeError
         | Some s \<Rightarrow> Inr (rstrip_nul s)))"

definition read_bytes :: "byte list \<Rightarrow> int \<Rightarrow> int \<Rightarrow> py_error + byte list" where
  \<comment> \<open>\<open>file.read(size)\<close> with any integer: -1 reads to the end, a size below -1 raises\<close>
  "read_bytes f off n =
     (if off < 0 then Inl OSError
      else if n < - 1 then Inl ValueError
      else if n = - 1 then Inr (drop (nat off) f)
      else file_read f off (nat n))"

definition max_offset :: "byte list \<Rightarrow> int" where
  "max_offset f = int (length f)"

section \<open>ExPac: extracting an entry\<close>

record entry =
  entry_name :: pystr
  entry_offset :: int
  entry_size :: int
  entry_type :: string

definition nibble_swap :: "byte \<Rightarrow> byte" where
  \<comment> \<open>\<open>(data[pos] >> 4) | ((data[pos] & 0x0F) << 4)\<close>\<close>
  "nibble_swap b = drop_bit 4 b OR push_bit 4 (b AND 0x0F)"

fun swap_chunk :: "nat \<Rightarrow> nat \<Rightarrow> byte list \<Rightarrow> byte list" where
  \<comment> \<open>the inner loop \<open>for j in range(chunk_size)\<close>, on positions the caller has bounded\<close>
  "swap_chunk 0 pos data = data"
| "swap_chunk (Suc n) pos data = swap_chunk n (pos + 1) (data[pos := nibble_swap (data ! pos)])"

fun script_records :: "nat \<Rightarrow> nat \<Rightarrow> byte list \<Rightarrow> byte list" where
  \<comment> \<open>the outer loop \<open>for i in range(record_count)\<close>\<close>
  "script_records 0 pos data = data"
| "script_records (Suc k) pos data =
     (if pos + 2 > length data then data
      else let chunk_size = int (le_nat (take 2 (drop pos data))) - 4;
               pos' = pos + 6
           in if int pos' + chunk_size > int (length data) then data
              else script_records k (pos' + nat chunk_size) (swap_chunk (nat chunk_size) pos' data))"

definition open_entry :: "byte list \<Rightarrow> entry \<Rightarrow> py_error + byte list" where
  "open_entry f e =
     (if entry_type e \<noteq> ''script'' then read_bytes f (entry_offset e) (entry_size e)
      else case read_int16 f (entry_offset e + 4) of Inl x \<Rightarrow> Inl x
      | Inr sig16 \<Rightarrow>
        if sig16 \<noteq> 6 then read_bytes f (entry_offset e) (entry_size e)
        else case read_uint32 f (entry_offset e + 6) of Inl x \<Rightarrow> Inl x
        | Inr sig32 \<Rightarrow>
          if sig32 \<noteq> 0x140050 then read_bytes f (entry_offset e) (entry_size e)
          else case read_uint32 f (entry_offset e) of Inl x \<Rightarrow> Inl x
          | Inr record_count \<Rightarrow>
            (case read_bytes f (entry_offset e) (entry_size e) of Inl x \<Rightarrow> Inl x
             | Inr data \<Rightarrow> Inr (script_records (nat record_count) 4 data)))"

section \<open>ExPac: parsing the index\<close>

definition check_placement :: "entry \<Rightarrow> int \<Rightarrow> bool" where
  "check_placement e mo = (entry_offset e + entry_size e \<le> mo)"

definition is_sane_count :: "int \<Rightarrow> bool" where
  "is_sane_count count = (0 < count \<and> count < 0x10000)"

text \<open>
  \<open>try_open\<close> is one function in the source. Here it is cut at its own blank lines into
  \<open>read_header\<close> (the three header reads and their checks), \<open>index_version\<close> (the choice
  of the version from the index size), \<open>read_index\<close> (the loop over the directory) and
  \<open>sniff_all\<close> (the loop that types the entries); \<open>try_open\<close> runs them in order.
  The result is \<open>Inl\<close> for an exception, \<open>Inr None\<close> for the source's \<open>return None\<close>.
  \<open>decode\<close> stands for \<open>bytes.decode('utf-8')\<close>, \<open>splitext\<close> for
  \<open>os.path.splitext(_)[0]\<close> and \<open>arc_name\<close> for the lower-cased base name of the
  archive's path.
\<close>

definition read_header :: "byte list \<Rightarrow> py_error + (int \<times> int \<times> int) option" where
  "read_header f =
     (case read_int16 f 0 of Inl x \<Rightarrow> Inl x
      | Inr count \<Rightarrow>
        if \<not> is_sane_count count then Inr None
        else (case read_byte f 2 of Inl x \<Rightarrow> Inl x
        | Inr name_length \<Rightarrow>
          if name_length = 0 then Inr None
          else (case read_uint32 f 3 of Inl x \<Rightarrow> Inl x
          | Inr data_offset \<Rightarrow>
            if data_offset \<ge> max_offset f then Inr None
            else Inr (Some (count, name_length, data_offset)))))"

definition index_version :: "int \<Rightarrow> int \<Rightarrow> int \<Rightarrow> nat option" where
  "index_version count name_length data_offset =
     (let index_size = 7 + (name_length + 8) * count
      in if data_offset = index_size then Some 1
         else if data_offset = index_size + 4 * count then Some 2
         else None)"

definition read_fields :: "byte list \<Rightarrow> nat \<Rightarrow> int \<Rightarrow> int \<Rightarrow> py_error + (int \<times> int \<times> int)" where
  \<comment> \<open>the offset and size fields of one record: (absolute offset, size, next index offset)\<close>
  "read_fields f version data_offset index_offset =
     (if version = 1 then
        (case read_uint32 f index_offset of Inl x \<Rightarrow> Inl x
         | Inr rel \<Rightarrow> (case read_uint32 f (index_offset + 4) of Inl x \<Rightarrow> Inl x
           | Inr sz \<Rightarrow> Inr (rel + data_offset, sz, index_offset + 8)))
      else
        (case read_int64 f index_offset of Inl x \<Rightarrow> Inl x
         | Inr rel \<Rightarrow> (case read_uint32 f (index_offset + 8) of Inl x \<Rightarrow> Inl x
           | Inr sz \<Rightarrow> Inr (rel + data_offset, sz, index_offset + 12))))"

fun read_index ::
  "(byte list \<Rightarrow> pystr option) \<Rightarrow> byte list \<Rightarrow> nat \<Rightarrow> int \<Rightarrow> int \<Rightarrow> nat \<Rightarrow> int \<Rightarrow> entry list
     \<Rightarrow> py_error + entry list option" where
  "read_index decode f version name_length data_offset 0 index_offset dir_entries =
     Inr (Some dir_entries)"
| "read_index decode f version name_length data_offset (Suc k) index_offset dir_entries =
     (case read_string decode f index_offset (nat name_length) of Inl x \<Rightarrow> Inl x
      | Inr name \<Rightarrow>
        (case read_fields f version data_offset (index_offset + name_length) of Inl x \<Rightarrow> Inl x
         | Inr (off, sz, index_offset') \<Rightarrow>
           let e = \<lparr>entry_name = name, entry_offset = off, entry_size = sz, entry_type = []\<rparr>
           in if \<not> check_placement e (max_offset f) then Inr None
              else read_index decode f version name_length data_offset k index_offset'
                     (dir_entries @ [e])))"

definition contains :: "pystr \<Rightarrow> pystr \<Rightarrow> bool" where
  \<comment> \<open>Python's \<open>s in t\<close> on strings\<close>
  "contains s t = (\<exists>i \<in> set [0 ..< Suc (length t)]. take (length s) (drop i t) = s)"

definition sniff_entry ::
  "(pystr \<Rightarrow> pystr) \<Rightarrow> pystr \<Rightarrow> byte list \<Rightarrow> entry \<Rightarrow> py_error + entry" where
  "sniff_entry splitext arc_name f e =
     (case read_uint32 f (entry_offset e) of Inl x \<Rightarrow> Inl x
      | Inr signature \<Rightarrow>
        if signature = 0x5367674F then
          Inr (e\<lparr>entry_name := splitext (entry_name e) @ py_str ''.ogg'', entry_type := ''audio''\<rparr>)
        else if (signature AND 0xFF = 1 \<or> signature AND 0xFF = 2)
                \<and> contains (py_str ''grd'') arc_name then
          Inr (e\<lparr>entry_name := splitext (entry_name e) @ py_str ''.grd'', entry_type := ''image''\<rparr>)
        else
          (case (if signature AND 0xFF = 0x44
                 then (case read_uint32 f (entry_offset e + 5) of Inl x \<Rightarrow> Inl x
                       | Inr v \<Rightarrow> Inr (entry_size e - 9 = v))
                 else Inr False) of Inl x \<Rightarrow> Inl x
           | Inr True \<Rightarrow> Inr (e\<lparr>entry_type := ''audio''\<rparr>)
           | Inr False \<Rightarrow>
             (case read_int16 f (entry_offset e + 4) of Inl x \<Rightarrow> Inl x
              | Inr s16 \<Rightarrow>
                if s16 \<noteq> 6 then Inr e
                else (case read_uint32 f (entry_offset e + 6) of Inl x \<Rightarrow> Inl x
                | Inr s32 \<Rightarrow>
                  if s32 \<noteq> 0x140050 then Inr e
                  else if arc_name = py_str ''srp'' then
                    Inr (e\<lparr>entry_type := ''script'',
                           entry_name := splitext (entry_name e) @ py_str ''.srp''\<rparr>)
                  else Inr (e\<lparr>entry_type := ''script''\<rparr>)))))"

fun sniff_all ::
  "(pystr \<Rightarrow> pystr) \<Rightarrow> pystr \<Rightarrow> byte list \<Rightarrow> entry list \<Rightarrow> py_error + entry list" where
  "sniff_all splitext arc_name f [] = Inr []"
| "sniff_all splitext arc_name f (e # es) =
     (case sniff_entry splitext arc_name f e of Inl x \<Rightarrow> Inl x
      | Inr e' \<Rightarrow> (case sniff_all splitext arc_name f es of Inl x \<Rightarrow> Inl x
        | Inr es' \<Rightarrow> Inr (e' # es')))"

definition parse_entries ::
  "(byte list \<Rightarrow> pystr option) \<Rightarrow> (pystr \<Rightarrow> pystr) \<Rightarrow> pystr \<Rightarrow> byte list
     \<Rightarrow> nat \<Rightarrow> int \<Rightarrow> int \<Rightarrow> int \<Rightarrow> py_error + entry list option" where
  \<comment> \<open>what \<open>try_open\<close> does once \<open>version\<close> is set\<close>
  "parse_entries decode splitext arc_name f version count name_length data_offset =
     (case read_index decode f version name_length data_offset (nat count) 7 [] of
        Inl x \<Rightarrow> Inl x
      | Inr None \<Rightarrow> Inr None
      | Inr (Some dir_entries) \<Rightarrow>
        (case sniff_all splitext arc_name f dir_entries of Inl x \<Rightarrow> Inl x
         | Inr es \<Rightarrow> Inr (Some es)))"

definition try_open ::
  "(byte list \<Rightarrow> pystr option) \<Rightarrow> (pystr \<Rightarrow> pystr) \<Rightarrow> pystr \<Rightarrow> byte list
     \<Rightarrow> py_error + entry list option" where
  "try_open decode splitext arc_name f =
     (case read_header f of Inl x \<Rightarrow> Inl x
      | Inr None \<Rightarrow> Inr None
      | Inr (Some (count, name_length, data_offset)) \<Rightarrow>
        (case index_version count name_length data_offset of None \<Rightarrow> Inr None
         | Some version \<Rightarrow>
           parse_entries decode splitext arc_name f version count name_length data_offset))"

section \<open>Grd2Png: the header\<close>

record GrdMetaData =
  Format :: int
  Width :: int
  Height :: int
  BPP :: int
  OffsetX :: int
  OffsetY :: int
  AlphaSize :: int
  RSize :: int
  GSize :: int
  BSize :: int

definition py_slice :: "nat \<Rightarrow> nat \<Rightarrow> 'a list \<Rightarrow> 'a list" where
  \<comment> \<open>Python's \<open>xs[i:j]\<close> for \<open>0 \<le> i \<le> j\<close>\<close>
  "py_slice i j xs = take (j - i) (drop i xs)"

definition struct_unpack :: "nat \<Rightarrow> nat \<Rightarrow> byte list \<Rightarrow> py_error + int list" where
  \<comment> \<open>\<open>struct.unpack\<close> of \<open>n\<close> unsigned little-endian fields of \<open>w\<close> bytes each\<close>
  "struct_unpack w n bs =
     (if length bs \<noteq> w * n then Inl StructError
      else Inr (map (\<lambda>i. int (le_nat (py_slice (i * w) (i * w + w) bs))) [0 ..< n]))"

definition read_grd_metadata :: "byte list \<Rightarrow> py_error + GrdMetaData option" where
  "read_grd_metadata file =
     (let header = take 0x20 file
      in if length header \<le> 0 then Inl IndexError
         else if header ! 0 \<notin> {1, 2} then Inr None
         else if length header \<le> 1 then Inl IndexError
         else if header ! 1 \<notin> {1, 0xA1, 0xA2} then Inr None
         else (case struct_unpack 2 1 (py_slice 6 8 header) of Inl x \<Rightarrow> Inl x
         | Inr b \<Rightarrow>
           let bpp = b ! 0
           in if bpp \<notin> {24, 32} then Inr None
           else (case struct_unpack 2 2 (py_slice 2 6 header) of Inl x \<Rightarrow> Inl x
           | Inr screen \<Rightarrow>
             (case struct_unpack 2 4 (py_slice 8 16 header) of Inl x \<Rightarrow> Inl x
              | Inr box \<Rightarrow>
                (case struct_unpack 2 1 (py_slice 0 2 header) of Inl x \<Rightarrow> Inl x
                 | Inr fmt \<Rightarrow>
                   (case struct_unpack 4 4 (py_slice 0x10 0x20 header) of Inl x \<Rightarrow> Inl x
                    | Inr sizes \<Rightarrow>
                      let screen_height = screen ! 1;
                          left = box ! 0; right = box ! 1; top = box ! 2; bottom = box ! 3;
                          info = \<lparr>Format = fmt ! 0,
                                  Width = \<bar>right - left\<bar>,
                                  Height = \<bar>bottom - top\<bar>,
                                  BPP = bpp,
                                  OffsetX = left,
                                  OffsetY = screen_height - bottom,
                                  AlphaSize = sizes ! 0, RSize = sizes ! 1,
                                  GSize = sizes ! 2, BSize = sizes ! 3\<rparr>
                      in if 0x20 + AlphaSize info + RSize info + BSize info + GSize info
                              \<noteq> int (length file)
                         then Inr None
                         else Inr (Some info)))))))"

section \<open>Grd2Png: Python sequences\<close>

definition py_index :: "'a list \<Rightarrow> int \<Rightarrow> nat option" where
  \<comment> \<open>the position that \<open>xs[i]\<close> addresses: an index below zero counts back from the end,
      and an index outside the sequence addresses nothing\<close>
  "py_index xs i =
     (if 0 \<le> i \<and> i < int (length xs) then Some (nat i)
      else if i < 0 \<and> 0 \<le> i + int (length xs) then Some (nat (i + int (length xs)))
      else None)"

definition py_get :: "'a list \<Rightarrow> int \<Rightarrow> py_error + 'a" where
  \<comment> \<open>\<open>xs[i]\<close>\<close>
  "py_get xs i = (case py_index xs i of None \<Rightarrow> Inl IndexError | Some k \<Rightarrow> Inr (xs ! k))"

definition py_set :: "'a list \<Rightarrow> int \<Rightarrow> 'a \<Rightarrow> py_error + 'a list" where
  \<comment> \<open>\<open>xs[i] = v\<close>\<close>
  "py_set xs i v = (case py_index xs i of None \<Rightarrow> Inl IndexError | Some k \<Rightarrow> Inr (xs[k := v]))"

definition slice_assign :: "'a list \<Rightarrow> nat \<Rightarrow> nat \<Rightarrow> 'a list \<Rightarrow> 'a list" where
  \<comment> \<open>\<open>a[i:j] = ys\<close> on a bytearray, for \<open>i \<le> j\<close>: the slice is clipped to the array,
      and the array grows or shrinks when \<open>ys\<close> is not as long as the slice\<close>
  "slice_assign a i j ys = take i a @ ys @ drop j a"

section \<open>Grd2Png: run-length expansion\<close>

text \<open>
  The state of the loop in \<open>unpack_rle\<close>: what is left of the input stream, \<open>src\<close>,
  \<open>dst\<close> and the channel buffer. \<open>rle_step\<close> is the body of the loop.
\<close>

type_synonym rle_state = "byte list \<times> nat \<times> nat \<times> byte list"

definition rle_step :: "rle_state \<Rightarrow> py_error + rle_state" where
  "rle_step st =
     (case st of (s, src, dst, channel) \<Rightarrow>
        (case s of [] \<Rightarrow> Inl IndexError
         | c # s1 \<Rightarrow>
           let count = unat c; src = src + 1
           in if count > 0x7F then
                (let count = count AND 0x7F
                 in case s1 of [] \<Rightarrow> Inl IndexError
                    | v # s2 \<Rightarrow>
                      Inr (s2, src + 1, dst + count,
                           slice_assign channel dst (dst + count) (replicate count v)))
              else if count > 0 then
                Inr (drop count s1, src + count, dst + count,
                     slice_assign channel dst (dst + count) (take count s1))
              else Inr (s1, src, dst, channel)))"

lemma rle_step_src: "rle_step (s, src, dst, channel) = Inr (s', src', dst', channel') \<Longrightarrow> src < src'"
  by (auto simp: rle_step_def Let_def split: list.splits if_splits)

function unpack_rle_loop :: "nat \<Rightarrow> rle_state \<Rightarrow> py_error + rle_state" where
  "unpack_rle_loop src_size (s, src, dst, channel) =
     (if src < src_size then
        (case rle_step (s, src, dst, channel) of Inl x \<Rightarrow> Inl x
         | Inr st \<Rightarrow> unpack_rle_loop src_size st)
      else Inr (s, src, dst, channel))"
  by pat_completeness auto
termination
  by (relation "measure (\<lambda>(src_size, s, src, dst, channel). src_size - src)")
     (auto dest: rle_step_src)

definition unpack_rle :: "byte list \<Rightarrow> nat \<Rightarrow> byte list \<Rightarrow> py_error + (byte list \<times> byte list)" where
  \<comment> \<open>returns the channel buffer and what is left of the input stream\<close>
  "unpack_rle input_stream src_size channel =
     (case unpack_rle_loop src_size (input_stream, 0, 0, channel) of Inl x \<Rightarrow> Inl x
      | Inr (s, src, dst, channel') \<Rightarrow> Inr (channel', s))"

section \<open>Grd2Png: LZ77 expansion\<close>

fun lz77_copy :: "nat \<Rightarrow> int \<Rightarrow> nat \<Rightarrow> byte list \<Rightarrow> py_error + (nat \<times> byte list)" where
  \<comment> \<open>\<open>for i in range(count): output[dst] = output[dst - offset]; dst += 1\<close>\<close>
  "lz77_copy 0 offset dst output = Inr (dst, output)"
| "lz77_copy (Suc n) offset dst output =
     (case py_get output (int dst - offset) of Inl x \<Rightarrow> Inl x
      | Inr v \<Rightarrow> (case py_set output (int dst) v of Inl x \<Rightarrow> Inl x
        | Inr output' \<Rightarrow> lz77_copy n offset (dst + 1) output'))"

type_synonym lz77_state = "nat \<times> nat \<times> byte list"

definition lz77_step :: "byte list \<Rightarrow> byte \<Rightarrow> lz77_state \<Rightarrow> py_error + lz77_state" where
  "lz77_step input_data special st =
     (case st of (src, dst, output) \<Rightarrow>
        if src \<ge> length input_data then Inl IndexError
        else let b = input_data ! src; src = src + 1
        in if b = special then
             (if src \<ge> length input_data then Inl IndexError
              else let offset = input_data ! src; src = src + 1
              in if offset \<noteq> special then
                   (if src \<ge> length input_data then Inl IndexError
                    else let count = input_data ! src; src = src + 1;
                             offset' = (if offset > special then int (unat offset) - 1
                                        else int (unat offset))
                    in case lz77_copy (unat count) offset' dst output of Inl x \<Rightarrow> Inl x
                       | Inr (dst', output') \<Rightarrow> Inr (src, dst', output'))
                 else (case py_set output (int dst) offset of Inl x \<Rightarrow> Inl x
                       | Inr output' \<Rightarrow> Inr (src, dst + 1, output')))
           else (case py_set output (int dst) b of Inl x \<Rightarrow> Inl x
                 | Inr output' \<Rightarrow> Inr (src, dst + 1, output')))"

lemma lz77_step_src:
  "lz77_step input_data special (src, dst, output) = Inr (src', dst', output') \<Longrightarrow>
   src < src' \<and> src' \<le> length input_data"
  by (auto simp: lz77_step_def Let_def split: if_splits sum.splits)

function unpack_lz77_loop :: "byte list \<Rightarrow> byte \<Rightarrow> lz77_state \<Rightarrow> py_error + lz77_state" where
  "unpack_lz77_loop input_data special (src, dst, output) =
     (if dst < length output then
        (case lz77_step input_data special (src, dst, output) of Inl x \<Rightarrow> Inl x
         | Inr st \<Rightarrow> unpack_lz77_loop input_data special st)
      else Inr (src, dst, output))"
  by pat_completeness auto
termination
  by (relation "measure (\<lambda>(input_data, special, src, dst, output). length input_data - src)")
     (auto dest: lz77_step_src)

definition unpack_lz77 :: "byte list \<Rightarrow> byte list \<Rightarrow> py_error + byte list" where
  "unpack_lz77 input_data output =
     (if length input_data \<le> 8 then Inl IndexError
      else let special = input_data ! 8
      in case unpack_lz77_loop input_data special (12, 0, output) of Inl x \<Rightarrow> Inl x
         | Inr (src, dst, output') \<Rightarrow> Inr output')"

section \<open>Grd2Png: Huffman decoding\<close>

record HuffmanNode =
  freq :: nat
  left :: nat
  right :: nat

record LsbBitStream =
  stream :: "byte list"
  current_byte :: nat
  bit_position :: nat

definition get_next_bit :: "LsbBitStream \<Rightarrow> py_error + (nat \<times> LsbBitStream)" where
  "get_next_bit bits =
     (if bit_position bits = 8 then
        (case stream bits of [] \<Rightarrow> Inl IndexError
         | x # s \<Rightarrow>
           Inr (unat x AND 1,
                \<lparr>stream = s, current_byte = drop_bit 1 (unat x), bit_position = 0 + 1\<rparr>))
      else
        Inr (current_byte bits AND 1,
             bits\<lparr>current_byte := drop_bit 1 (current_byte bits),
                  bit_position := bit_position bits + 1\<rparr>))"

fun add_node_scan :: "HuffmanNode list \<Rightarrow> nat \<Rightarrow> nat \<Rightarrow> nat list \<Rightarrow> py_error + nat list" where
  \<comment> \<open>the loop of \<open>add_node\<close> over the rest of \<open>tree\<close>\<close>
  "add_node_scan nodes fr index [] = Inr [index]"
| "add_node_scan nodes fr index (node # rest) =
     (if node \<ge> length nodes then Inl IndexError
      else if freq (nodes ! node) > fr then Inr (index # node # rest)
      else (case add_node_scan nodes fr index rest of Inl x \<Rightarrow> Inl x
            | Inr t \<Rightarrow> Inr (node # t)))"

definition add_node :: "nat list \<Rightarrow> HuffmanNode list \<Rightarrow> nat \<Rightarrow> py_error + nat list" where
  "add_node tree nodes index =
     (if index \<ge> length nodes then Inl IndexError
      else add_node_scan nodes (freq (nodes ! index)) index tree)"

lemma length_add_node_scan:
  "add_node_scan nodes fr index tree = Inr t \<Longrightarrow> length t = Suc (length tree)"
  by (induction tree arbitrary: t) (auto split: if_splits sum.splits)

lemma length_add_node: "add_node tree nodes index = Inr t \<Longrightarrow> length t = Suc (length tree)"
  by (auto simp: add_node_def length_add_node_scan split: if_splits)

definition read_u32 :: "byte list \<Rightarrow> py_error + (nat \<times> byte list)" where
  \<comment> \<open>\<open>struct.unpack('<I', input_stream.read(4))[0]\<close>, with the rest of the stream\<close>
  "read_u32 s = (if length (take 4 s) \<noteq> 4 then Inl StructError
                 else Inr (le_nat (take 4 s), drop 4 s))"

fun seed_nodes ::
  "nat \<Rightarrow> nat \<Rightarrow> byte list \<Rightarrow> HuffmanNode list \<Rightarrow> nat list
     \<Rightarrow> py_error + (byte list \<times> HuffmanNode list \<times> nat list)" where
  \<comment> \<open>\<open>for i in range(0x100)\<close>: the first argument counts the rounds still to run\<close>
  "seed_nodes 0 i s nodes tree = Inr (s, nodes, tree)"
| "seed_nodes (Suc k) i s nodes tree =
     (case read_u32 s of Inl x \<Rightarrow> Inl x
      | Inr (f, s') \<Rightarrow>
        if i \<ge> length nodes then Inl IndexError
        else let nodes' = nodes[i := (nodes ! i)\<lparr>freq := f\<rparr>]
        in (case add_node tree nodes' i of Inl x \<Rightarrow> Inl x
            | Inr tree' \<Rightarrow> seed_nodes k (i + 1) s' nodes' tree'))"

function merge_nodes ::
  "HuffmanNode list \<Rightarrow> nat list \<Rightarrow> nat \<Rightarrow> py_error + (HuffmanNode list \<times> nat list \<times> nat)" where
  \<comment> \<open>\<open>while len(tree) > 1\<close>\<close>
  "merge_nodes nodes [] last_node = Inr (nodes, [], last_node)"
| "merge_nodes nodes [n] last_node = Inr (nodes, [n], last_node)"
| "merge_nodes nodes (l # r # rest) last_node =
     (if l \<ge> length nodes \<or> r \<ge> length nodes \<or> last_node \<ge> length nodes then Inl IndexError
      else let nodes' = nodes[last_node := (nodes ! last_node)
                 \<lparr>freq := freq (nodes ! l) + freq (nodes ! r), left := l, right := r\<rparr>]
      in (case add_node rest nodes' last_node of Inl x \<Rightarrow> Inl x
          | Inr tree' \<Rightarrow> merge_nodes nodes' tree' (last_node + 1)))"
  by pat_completeness auto
termination
  by (relation "measure (\<lambda>(nodes, tree, last_node). length tree)")
     (auto dest: length_add_node)

definition create_huffman_tree ::
  "byte list \<Rightarrow> py_error + (HuffmanNode list \<times> nat \<times> byte list)" where
  \<comment> \<open>returns \<open>nodes\<close>, \<open>self.huffman_unpacked\<close> and what is left of the input stream\<close>
  "create_huffman_tree input_stream =
     (let nodes = replicate 0x200 \<lparr>freq = 0, left = 0, right = 0\<rparr>
      in case read_u32 input_stream of Inl x \<Rightarrow> Inl x
      | Inr (huffman_unpacked, s1) \<Rightarrow>
        (case seed_nodes 0x100 0 (drop 4 s1) nodes [] of Inl x \<Rightarrow> Inl x
         | Inr (s2, nodes1, tree) \<Rightarrow>
           (case merge_nodes nodes1 tree 0x100 of Inl x \<Rightarrow> Inl x
            | Inr (nodes2, tree', last_node) \<Rightarrow> Inr (nodes2, huffman_unpacked, s2))))"

partial_function (option) walk ::
  "HuffmanNode list \<Rightarrow> LsbBitStream \<Rightarrow> nat \<Rightarrow> (py_error + (nat \<times> LsbBitStream)) option" where
  \<comment> \<open>\<open>while node > 0xFF\<close>; \<open>None\<close> stands for a walk that never ends\<close>
  "walk tree bits node =
     (if node > 0xFF then
        (case get_next_bit bits of Inl x \<Rightarrow> Some (Inl x)
         | Inr (b, bits') \<Rightarrow>
           if node \<ge> length tree then Some (Inl IndexError)
           else if b \<noteq> 0 then walk tree bits' (right (tree ! node))
           else walk tree bits' (left (tree ! node)))
      else Some (Inr (node, bits)))"

fun decode_bytes ::
  "nat \<Rightarrow> HuffmanNode list \<Rightarrow> LsbBitStream \<Rightarrow> nat \<Rightarrow> byte list
     \<Rightarrow> (py_error + (byte list \<times> LsbBitStream)) option" where
  \<comment> \<open>\<open>while dst < self.huffman_unpacked\<close>: the first argument is \<open>huffman_unpacked - dst\<close>\<close>
  "decode_bytes 0 tree bits dst unpacked = Some (Inr (unpacked, bits))"
| "decode_bytes (Suc k) tree bits dst unpacked =
     (case walk tree bits 0x1FE of None \<Rightarrow> None
      | Some (Inl x) \<Rightarrow> Some (Inl x)
      | Some (Inr (node, bits')) \<Rightarrow>
        (case py_set unpacked (int dst) (of_nat node) of Inl x \<Rightarrow> Some (Inl x)
         | Inr unpacked' \<Rightarrow> decode_bytes k tree bits' (dst + 1) unpacked'))"

definition unpack_huffman ::
  "byte list \<Rightarrow> (py_error + (byte list \<times> nat \<times> LsbBitStream)) option" where
  \<comment> \<open>returns \<open>unpacked\<close>, \<open>self.huffman_unpacked\<close> and the bit reader as the decoder left it\<close>
  "unpack_huffman input_stream =
     (case create_huffman_tree input_stream of Inl x \<Rightarrow> Some (Inl x)
      | Inr (tree, huffman_unpacked, s) \<Rightarrow>
        (case decode_bytes huffman_unpacked tree
                \<lparr>stream = s, current_byte = 0, bit_position = 8\<rparr> 0
                (replicate huffman_unpacked 0) of None \<Rightarrow> None
         | Some (Inl x) \<Rightarrow> Some (Inl x)
         | Some (Inr (unpacked, bits)) \<Rightarrow> Some (Inr (unpacked, huffman_unpacked, bits))))"

section \<open>Grd2Png: channels and the pixel buffer\<close>

record GrdReader =
  input_stream :: "byte list"
  info :: GrdMetaData
  output_buffer :: "byte list"
  channel :: "byte list"
  pack_type :: int
  pixel_size :: int
  huffman_unpacked :: nat

definition new_GrdReader :: "byte list \<Rightarrow> GrdMetaData \<Rightarrow> GrdReader" where
  \<comment> \<open>\<open>GrdReader.__init__\<close>, for the non-negative sizes that \<open>read_grd_metadata\<close> yields\<close>
  "new_GrdReader f i =
     \<lparr>input_stream = f, info = i,
      output_buffer = replicate (nat (Width i * Height i * (BPP i div 8))) 0,
      channel = replicate (nat (Width i * Height i)) 0,
      pack_type = drop_bit 8 (Format i),
      pixel_size = BPP i div 8,
      huffman_unpacked = 0\<rparr>"

fun interleave_row ::
  "nat \<Rightarrow> int \<Rightarrow> byte list \<Rightarrow> nat \<Rightarrow> int \<Rightarrow> byte list \<Rightarrow> py_error + (int \<times> byte list)" where
  \<comment> \<open>\<open>for x in range(self.info.Width)\<close>: the first argument counts the pixels still to copy\<close>
  "interleave_row 0 ps chan src dst out = Inr (dst, out)"
| "interleave_row (Suc n) ps chan src dst out =
     (case py_get chan (int src) of Inl x \<Rightarrow> Inl x
      | Inr v \<Rightarrow> (case py_set out dst v of Inl x \<Rightarrow> Inl x
        | Inr out' \<Rightarrow> interleave_row n ps chan (src + 1) (dst + ps) out'))"

fun interleave_rows ::
  "nat \<Rightarrow> nat \<Rightarrow> int \<Rightarrow> byte list \<Rightarrow> int \<Rightarrow> byte list \<Rightarrow> py_error + byte list" where
  \<comment> \<open>\<open>for y in range(self.info.Height - 1, -1, -1)\<close>: the first argument is \<open>y + 1\<close>\<close>
  "interleave_rows 0 w ps chan dst out = Inr out"
| "interleave_rows (Suc y) w ps chan dst out =
     (case interleave_row w ps chan (y * w) dst out of Inl x \<Rightarrow> Inl x
      | Inr (dst', out') \<Rightarrow> interleave_rows y w ps chan dst' out')"

definition interleave :: "GrdReader \<Rightarrow> int \<Rightarrow> py_error + GrdReader" where
  \<comment> \<open>the two nested loops that close \<open>unpack_channel\<close>\<close>
  "interleave self dst =
     (case interleave_rows (nat (Height (info self))) (nat (Width (info self)))
             (pixel_size self) (channel self) dst (output_buffer self) of Inl x \<Rightarrow> Inl x
      | Inr out \<Rightarrow> Inr (self\<lparr>output_buffer := out\<rparr>))"

definition decode_channel :: "GrdReader \<Rightarrow> int \<Rightarrow> int \<Rightarrow> (py_error + GrdReader) option" where
  \<comment> \<open>\<open>unpack_channel\<close> up to the loops: seek, then the decoder that \<open>pack_type\<close> selects\<close>
  "decode_channel self src_pos src_size =
     (if src_pos < 0 then Some (Inl OSError)
      else let s = drop (nat src_pos) (input_stream self)
      in if pack_type self = 1 then
           (case unpack_rle s (nat src_size) (channel self) of Inl x \<Rightarrow> Some (Inl x)
            | Inr (chan, s') \<Rightarrow> Some (Inr (self\<lparr>channel := chan\<rparr>)))
         else
           (case unpack_huffman s of None \<Rightarrow> None
            | Some (Inl x) \<Rightarrow> Some (Inl x)
            | Some (Inr (data, n, bits)) \<Rightarrow>
              if pack_type self = 0xA2 then
                (case unpack_lz77 data (channel self) of Inl x \<Rightarrow> Some (Inl x)
                 | Inr chan \<Rightarrow> Some (Inr (self\<lparr>channel := chan, huffman_unpacked := n\<rparr>)))
              else
                (case unpack_rle data (length data) (channel self) of Inl x \<Rightarrow> Some (Inl x)
                 | Inr (chan, s') \<Rightarrow>
                   Some (Inr (self\<lparr>channel := chan, huffman_unpacked := n\<rparr>)))))"

definition unpack_channel ::
  "GrdReader \<Rightarrow> int \<Rightarrow> int \<Rightarrow> int \<Rightarrow> (py_error + GrdReader) option" where
  "unpack_channel self dst src_pos src_size =
     (case decode_channel self src_pos src_size of None \<Rightarrow> None
      | Some (Inl x) \<Rightarrow> Some (Inl x)
      | Some (Inr self') \<Rightarrow> Some (interleave self' dst))"

definition unpack :: "GrdReader \<Rightarrow> (py_error + GrdReader) option" where
  "unpack self =
     (let next_pos = 0x20;
          i = info self
      in case (if BPP i = 32 \<and> AlphaSize i > 0
               then (case unpack_channel self 3 next_pos (AlphaSize i) of None \<Rightarrow> None
                     | Some (Inl x) \<Rightarrow> Some (Inl x)
                     | Some (Inr self') \<Rightarrow> Some (Inr (self', next_pos + AlphaSize i)))
               else Some (Inr (self, next_pos))) of None \<Rightarrow> None
         | Some (Inl x) \<Rightarrow> Some (Inl x)
         | Some (Inr (self1, next_pos1)) \<Rightarrow>
           (case unpack_channel self1 0 next_pos1 (RSize i) of None \<Rightarrow> None
            | Some (Inl x) \<Rightarrow> Some (Inl x)
            | Some (Inr self2) \<Rightarrow>
              (case unpack_channel self2 1 (next_pos1 + RSize i) (GSize i) of None \<Rightarrow> None
               | Some (Inl x) \<Rightarrow> Some (Inl x)
               | Some (Inr self3) \<Rightarrow>
                 unpack_channel self3 2 (next_pos1 + RSize i + GSize i) (BSize i))))"

section \<open>Grd2Png: the nodes below a node\<close>

text \<open>
  \<open>descends nodes n m\<close>: the walk of \<open>unpack_huffman\<close> can go from node \<open>n\<close> to node
  \<open>m\<close>, taking at each internal node (an index above 0xFF) its left or its right child.
\<close>

inductive descends :: "HuffmanNode list \<Rightarrow> nat \<Rightarrow> nat \<Rightarrow> bool" for nodes :: "HuffmanNode list" where
  here: "descends nodes n n"
| go_left: "0xFF < n \<Longrightarrow> n < length nodes \<Longrightarrow> descends nodes (left (nodes ! n)) m
     \<Longrightarrow> descends nodes n m"
| go_right: "0xFF < n \<Longrightarrow> n < length nodes \<Longrightarrow> descends nodes (right (nodes ! n)) m
     \<Longrightarrow> descends nodes n m"

section \<open>Counting the bits read\<close>

definition bits_left :: "LsbBitStream \<Rightarrow> nat" where
  \<comment> \<open>the bits \<open>get_next_bit\<close> can still deliver: those of the bytes not yet read and
      those of the current byte not yet handed out\<close>
  "bits_left bits = 8 * length (stream bits) + (8 - bit_position bits)"

definition bits_read :: "byte list \<Rightarrow> LsbBitStream \<Rightarrow> nat" where
  \<comment> \<open>the bits delivered since the reader was created on the stream \<open>s\<close>\<close>
  "bits_read s bits = 8 * length s - bits_left bits"

section \<open>Sample archives\<close>

text \<open>
  Stand-ins for the two library functions on the sample inputs below: a decoder that
  never raises, and the part of a name before its last dot (the sample names hold no
  path separator and do not begin with a dot).
\<close>

definition latin1 :: "byte list \<Rightarrow> pystr option" where
  "latin1 bs = Some (map unat bs)"

definition stem :: "pystr \<Rightarrow> pystr" where
  "stem s = (if 46 \<in> set s then rev (tl (dropWhile (\<lambda>c. c \<noteq> 46) (rev s))) else s)"

text \<open>
  One entry named \<open>test\<close>, version 1, four bytes of payload \<open>OggS\<close>; and the same
  archive with the stored size raised to five, one byte past the end of the file.
\<close>

definition ogg_archive :: "byte list" where
  "ogg_archive = [0x01, 0x00, 0x04, 0x13, 0x00, 0x00, 0x00,
                  0x74, 0x65, 0x73, 0x74, 0x00, 0x00, 0x00, 0x00, 0x04, 0x00, 0x00, 0x00,
                  0x4F, 0x67, 0x67, 0x53]"

definition bad_archive :: "byte list" where
  "bad_archive = [0x01, 0x00, 0x04, 0x13, 0x00, 0x00, 0x00,
                  0x74, 0x65, 0x73, 0x74, 0x00, 0x00, 0x00, 0x00, 0x05, 0x00, 0x00, 0x00,
                  0x4F, 0x67, 0x67, 0x53]"

text \<open>
  A stand-in for the decoder that can raise: it accepts the byte strings whose bytes are
  all below 0x80 and returns their code points, as \<open>bytes.decode('utf-8')\<close> does, and
  rejects every other byte string; the two agree on every name made of ASCII bytes and on
  every name that holds the byte 0xFF, which no UTF-8 text contains.
\<close>

definition ascii_strict :: "byte list \<Rightarrow> pystr option" where
  "ascii_strict bs = (if \<forall>b \<in> set bs. b < 0x80 then Some (map unat bs) else None)"

text \<open>
  The archive whose one record ends past the file, with the first byte of its name
  replaced by 0xFF.
\<close>

definition bad_name_archive :: "byte list" where
  "bad_name_archive = [0x01, 0x00, 0x04, 0x13, 0x00, 0x00, 0x00,
                       0xFF, 0x65, 0x73, 0x74, 0x00, 0x00, 0x00, 0x00, 0x05, 0x00, 0x00, 0x00,
                       0x4F, 0x67, 0x67, 0x53]"

text \<open>
  A 2 by 2 image of 24 bits per pixel, run-length packed: the bounding box is
  (0, 2, 0, 2) and each of the three channels takes two bytes.
\<close>

definition sample_grd :: "byte list" where
  "sample_grd = [0x01, 0x01, 0x80, 0x02, 0xE0, 0x01, 0x18, 0x00,
                 0x00, 0x00, 0x02, 0x00, 0x00, 0x00, 0x02, 0x00,
                 0x00, 0x00, 0x00, 0x00, 0x02, 0x00, 0x00, 0x00,
                 0x02, 0x00, 0x00, 0x00, 0x02, 0x00, 0x00, 0x00,
                 0x84, 0x07, 0x84, 0x08, 0x84, 0x09]"

text \<open>
  A reader for the 2 by 2 image above, with a decoded channel waiting to be interleaved.
\<close>

definition sample_reader :: GrdReader where
  "sample_reader =
     \<lparr>input_stream = [], 
      info = \<lparr>Format = 257, Width = 2, Height = 2, BPP = 24, OffsetX = 0, OffsetY = 478,
               AlphaSize = 0, RSize = 2, GSize = 2, BSize = 2\<rparr>,
      output_buffer = [9, 9, 9, 9, 9, 9, 9, 9, 9, 9, 9, 9],
      channel = [1, 2, 3, 4],
      pack_type = 1, pixel_size = 3, huffman_unpacked = 0\<rparr>"

text \<open>
  A Huffman stream whose table gives a nonzero frequency to the byte 0x41 alone: decoded
  size 1, packed size 0, 256 frequencies, and no packed bits after them.
\<close>

definition lone_A_stream :: "byte list" where
  "lone_A_stream = [0x01, 0x00, 0x00, 0x00, 0x00, 0x00, 0x00, 0x00]
                   @ replicate 260 0x00 @ [0x01, 0x00, 0x00, 0x00] @ replicate 760 0x00"

section \<open>Reading inside the file\<close>

lemma le_nat_Nil [simp]: "le_nat [] = 0"
  by (simp add: le_nat_def)

lemma le_nat_Cons [simp]: "le_nat (b # bs) = unat b + 256 * le_nat bs"
  by (simp add: le_nat_def)

lemma le_nat_bound: "le_nat bs < 256 ^ length bs"
proof (induction bs)
  case Nil
  then show ?case by simp
next
  case (Cons b bs)
  have "unat b < 256"
    using unsigned_less [of b] by simp
  moreover have "le_nat bs + 1 \<le> 256 ^ length bs"
    using Cons.IH by simp
  then have "256 * (le_nat bs + 1) \<le> 256 * 256 ^ length bs"
    by (rule mult_le_mono2)
  ultimately show ?case by simp
qed

lemma file_read_inside:
  "0 \<le> off \<Longrightarrow> nat off + n \<le> length f \<Longrightarrow>
   file_read f off n = Inr (take n (drop (nat off) f)) \<and> length (take n (drop (nat off) f)) = n"
  by (simp add: file_read_def)

lemma read_uint32_inside:
  "0 \<le> off \<Longrightarrow> off + 4 \<le> int (length f) \<Longrightarrow>
   read_uint32 f off = Inr (int (le_nat (take 4 (drop (nat off) f))))"
  by (simp add: read_uint32_def unpack_fixed_def file_read_def)

lemma read_int64_inside:
  "0 \<le> off \<Longrightarrow> off + 8 \<le> int (length f) \<Longrightarrow>
   read_int64 f off = Inr (to_signed 64 (le_nat (take 8 (drop (nat off) f))))"
  by (simp add: read_int64_def unpack_fixed_def file_read_def)

lemma read_int16_inside:
  "0 \<le> off \<Longrightarrow> off + 2 \<le> int (length f) \<Longrightarrow>
   read_int16 f off = Inr (to_signed 16 (le_nat (take 2 (drop (nat off) f))))"
  by (simp add: read_int16_def unpack_fixed_def file_read_def)

lemma sane_signed16:
  "v < 65536 \<Longrightarrow> is_sane_count (to_signed 16 v) \<longleftrightarrow> 0 < v \<and> v < 32768"
  by (auto simp: is_sane_count_def to_signed_def)

section \<open>The entry count\<close>

text \<open>
  C2 (as amended). The count at offset 0 is read as a signed 16-bit little-endian
  integer. On every file of at least two bytes the read succeeds, and the count passes
  \<open>is_sane_count\<close> exactly when the stored unsigned value lies in 1..32767; a count that
  fails is rejected by \<open>try_open\<close> at once.
\<close>

theorem count_check_signed:
  assumes "2 \<le> length f"
  shows "read_int16 f 0 = Inr (to_signed 16 (le_nat (take 2 f)))
    \<and> (is_sane_count (to_signed 16 (le_nat (take 2 f)))
         \<longleftrightarrow> 0 < le_nat (take 2 f) \<and> le_nat (take 2 f) < 32768)
    \<and> (\<not> is_sane_count (to_signed 16 (le_nat (take 2 f)))
         \<longrightarrow> try_open decode splitext arc_name f = Inr None)"
proof -
  have r: "read_int16 f 0 = Inr (to_signed 16 (le_nat (take 2 f)))"
    using assms read_int16_inside [of 0 f] by simp
  have "le_nat (take 2 f) < 256 ^ length (take 2 f)"
    by (rule le_nat_bound)
  then have "le_nat (take 2 f) < 65536"
    using assms by simp
  then have s: "is_sane_count (to_signed 16 (le_nat (take 2 f)))
         \<longleftrightarrow> 0 < le_nat (take 2 f) \<and> le_nat (take 2 f) < 32768"
    by (rule sane_signed16)
  have "\<not> is_sane_count (to_signed 16 (le_nat (take 2 f)))
         \<Longrightarrow> try_open decode splitext arc_name f = Inr None"
    by (simp add: try_open_def read_header_def r)
  with r s show ?thesis by blast
qed

theorem count_check_signed_witness:
  "read_int16 [0x01, 0x00, 0x04] 0 = Inr 1 \<and> is_sane_count 1
   \<and> try_open latin1 stem [] [0x00, 0x80, 0x04] = Inr None"
  using count_check_signed [of "[0x01, 0x00, 0x04]" latin1 stem "[]"]
    count_check_signed [of "[0x00, 0x80, 0x04]" latin1 stem "[]"]
  by (simp add: to_signed_def)

text \<open>
  The stored count 0x8000 lies between 0 and 65536 as an unsigned 16-bit value, is read
  as -32768, and is rejected by the count check.
\<close>

theorem count_check_counterexample:
  "0 < le_nat [0x00, 0x80] \<and> le_nat [0x00, 0x80] < 65536
   \<and> read_int16 [0x00, 0x80, 0x04, 0x13, 0x00, 0x00, 0x00] 0 = Inr (- 32768)
   \<and> \<not> is_sane_count (- 32768)
   \<and> read_header [0x00, 0x80, 0x04, 0x13, 0x00, 0x00, 0x00] = Inr None"
  by (simp add: read_header_def read_int16_def unpack_fixed_def file_read_def to_signed_def
      is_sane_count_def)

section \<open>The sample archives, evaluated\<close>

lemmas reader_defs = read_int16_def read_byte_def read_uint32_def read_int64_def read_string_def
  read_bytes_def unpack_fixed_def file_read_def to_signed_def max_offset_def

lemma read_header_ogg: "read_header ogg_archive = Inr (Some (1, 4, 19))"
  by (simp add: ogg_archive_def read_header_def read_int16_def read_byte_def read_uint32_def
      unpack_fixed_def file_read_def to_signed_def is_sane_count_def max_offset_def)

lemma try_open_ogg:
  "try_open latin1 stem (py_str ''se'') ogg_archive =
     Inr (Some [\<lparr>entry_name = py_str ''test.ogg'', entry_offset = 19, entry_size = 4,
                 entry_type = ''audio''\<rparr>])"
  by (simp add: try_open_def read_header_ogg index_version_def parse_entries_def)
     (simp add: ogg_archive_def read_fields_def reader_defs latin1_def rstrip_nul_def
        check_placement_def sniff_entry_def stem_def py_str_def)

lemma read_header_bad: "read_header bad_archive = Inr (Some (1, 4, 19))"
  by (simp add: bad_archive_def read_header_def reader_defs is_sane_count_def)

lemma read_fields_bad: "read_fields bad_archive 1 19 (7 + int 0 * (4 + (if (1::nat) = 1 then 8 else 12)) + 4) = Inr (19, 5, 19)"
  by (simp add: bad_archive_def read_fields_def reader_defs)

section \<open>Version detection\<close>

lemma read_header_sane:
  assumes "read_header f = Inr (Some (count, name_length, data_offset))"
  shows "0 < count" and "count < 65536" and "0 < name_length" and "name_length < 256"
    and "0 \<le> data_offset" and "data_offset < int (length f)"
proof -
  from assms obtain c where c: "read_int16 f 0 = Inr c" and cs: "is_sane_count c"
    by (auto simp: read_header_def split: sum.splits if_splits)
  from assms c cs obtain n where n: "read_byte f 2 = Inr n" and n0: "n \<noteq> 0"
    by (auto simp: read_header_def split: sum.splits if_splits)
  from assms c cs n n0 obtain d where d: "read_uint32 f 3 = Inr d" and dm: "d < max_offset f"
    by (auto simp: read_header_def split: sum.splits if_splits)
  from assms c cs n n0 d dm have eq: "count = c" "name_length = n" "data_offset = d"
    by (auto simp: read_header_def)
  show "0 < count" "count < 65536"
    using cs eq by (simp_all add: is_sane_count_def)
  from n obtain bs where "length bs = 1" and "n = int (le_nat bs)"
    by (auto simp: read_byte_def unpack_fixed_def split: sum.splits if_splits)
  moreover have "le_nat bs < 256 ^ length bs"
    by (rule le_nat_bound)
  ultimately show "0 < name_length" "name_length < 256"
    using n0 eq by simp_all
  show "0 \<le> data_offset"
    using d eq by (auto simp: read_uint32_def unpack_fixed_def split: sum.splits if_splits)
  show "data_offset < int (length f)"
    using dm eq by (simp add: max_offset_def)
qed

text \<open>
  C3. Once the count, name-length and data-offset checks have passed, a data offset equal
  to \<open>7 + (name_length + 8) * count\<close> selects version 1, one equal to that plus
  \<open>4 * count\<close> selects version 2, any other offset rejects the archive, and the two
  index sizes differ because the count is positive.
\<close>

theorem version_detection:
  assumes "read_header f = Inr (Some (count, name_length, data_offset))"
  shows "(data_offset = 7 + (name_length + 8) * count \<longrightarrow>
            index_version count name_length data_offset = Some 1
            \<and> try_open decode splitext arc_name f =
                parse_entries decode splitext arc_name f 1 count name_length data_offset)
       \<and> (data_offset = 7 + (name_length + 8) * count + 4 * count \<longrightarrow>
            index_version count name_length data_offset = Some 2
            \<and> try_open decode splitext arc_name f =
                parse_entries decode splitext arc_name f 2 count name_length data_offset)
       \<and> (data_offset \<noteq> 7 + (name_length + 8) * count
          \<and> data_offset \<noteq> 7 + (name_length + 8) * count + 4 * count \<longrightarrow>
            index_version count name_length data_offset = None
            \<and> try_open decode splitext arc_name f = Inr None)
       \<and> 7 + (name_length + 8) * count \<noteq> 7 + (name_length + 8) * count + 4 * count"
proof -
  have pos: "0 < count"
    using assms by (rule read_header_sane)
  then have ne: "7 + (name_length + 8) * count \<noteq> 7 + (name_length + 8) * count + 4 * count"
    by simp
  show ?thesis
    using ne by (auto simp: try_open_def assms index_version_def Let_def)
qed

theorem version_detection_witness:
  "read_header ogg_archive = Inr (Some (1, 4, 19))
   \<and> index_version 1 4 19 = Some 1
   \<and> try_open latin1 stem (py_str ''se'') ogg_archive =
       parse_entries latin1 stem (py_str ''se'') ogg_archive 1 1 4 19
   \<and> (7::int) + (4 + 8) * 1 \<noteq> 7 + (4 + 8) * 1 + 4 * 1"
  using version_detection [OF read_header_ogg, of latin1 stem "py_str ''se''"] read_header_ogg
  by simp

section \<open>Entry placement\<close>

lemma read_index_placed:
  "read_index decode f version nl doff k io acc = Inr (Some es) \<Longrightarrow>
   \<forall>e \<in> set acc. check_placement e (max_offset f) \<Longrightarrow>
   length es = length acc + k \<and> (\<forall>e \<in> set es. check_placement e (max_offset f))"
proof (induction k arbitrary: io acc)
  case 0
  then show ?case by simp
next
  case (Suc k)
  from Suc.prems(1) obtain name off sz io' where
    flds: "read_fields f version doff (io + nl) = Inr (off, sz, io')"
    and ok: "check_placement \<lparr>entry_name = name, entry_offset = off, entry_size = sz, entry_type = []\<rparr> (max_offset f)"
    and rest: "read_index decode f version nl doff k io'
        (acc @ [\<lparr>entry_name = name, entry_offset = off, entry_size = sz, entry_type = []\<rparr>]) = Inr (Some es)"
    by (auto simp: Let_def split: sum.splits prod.splits if_splits)
  from Suc.IH [OF rest] ok Suc.prems(2) show ?case
    by simp
qed

lemma sniff_entry_place:
  "sniff_entry splitext arc_name f e = Inr e' \<Longrightarrow>
   entry_offset e' = entry_offset e \<and> entry_size e' = entry_size e"
  by (auto simp: sniff_entry_def split: sum.splits if_splits bool.splits)

lemma sniff_all_place:
  "sniff_all splitext arc_name f es = Inr es' \<Longrightarrow>
   length es' = length es \<and>
   (\<forall>e \<in> set es. check_placement e mo) \<longrightarrow> (\<forall>e \<in> set es'. check_placement e mo)"
proof (induction es arbitrary: es')
  case Nil
  then show ?case by simp
next
  case (Cons e es)
  from Cons.prems obtain e1 es1 where
    h: "sniff_entry splitext arc_name f e = Inr e1" and t: "sniff_all splitext arc_name f es = Inr es1"
    and eq: "es' = e1 # es1"
    by (auto split: sum.splits)
  from sniff_entry_place [OF h] have "check_placement e1 mo = check_placement e mo"
    by (simp add: check_placement_def)
  with Cons.IH [OF t] eq show ?case
    by simp
qed

lemma sniff_all_length:
  "sniff_all splitext arc_name f es = Inr es' \<Longrightarrow> length es' = length es"
  by (induction es arbitrary: es') (auto split: sum.splits)

lemma try_open_placed:
  assumes "try_open decode splitext arc_name f = Inr (Some es)"
  shows "\<forall>e \<in> set es. entry_offset e + entry_size e \<le> int (length f)"
proof -
  from assms obtain count nl doff version where
    p: "parse_entries decode splitext arc_name f version count nl doff = Inr (Some es)"
    by (auto simp: try_open_def split: sum.splits option.splits)
  then obtain ds where r: "read_index decode f version nl doff (nat count) 7 [] = Inr (Some ds)"
    and s: "sniff_all splitext arc_name f ds = Inr es"
    by (auto simp: parse_entries_def split: sum.splits option.splits)
  from read_index_placed [OF r] have "\<forall>e \<in> set ds. check_placement e (max_offset f)"
    by simp
  with sniff_all_place [OF s, of "max_offset f"] sniff_all_length [OF s]
  show ?thesis
    by (simp add: check_placement_def max_offset_def)
qed

lemma read_fields_inside:
  "0 \<le> p \<Longrightarrow> p + (if version = 1 then 8 else 12) \<le> int (length f) \<Longrightarrow>
   \<exists>off sz. read_fields f version doff p = Inr (off, sz, p + (if version = 1 then 8 else 12))"
  by (cases "version = 1") (simp_all add: read_fields_def read_uint32_inside read_int64_inside)

lemma read_string_inside:
  "0 \<le> p \<Longrightarrow> read_string decode f p n = Inl x \<Longrightarrow> x = UnicodeDecodeError \<and> (\<exists>bs. decode bs = None)"
  by (auto simp: read_string_def file_read_def split: option.splits)

lemma read_index_rejects:
  assumes "j < k" and "0 \<le> io" and "0 \<le> nl"
    and "io + int k * (nl + (if version = 1 then 8 else 12)) \<le> int (length f)"
    and "read_fields f version doff (io + int j * (nl + (if version = 1 then 8 else 12)) + nl) = Inr (off, sz, io')"
    and "off + sz > int (length f)"
  shows "read_index decode f version nl doff k io acc = Inr None
       \<or> read_index decode f version nl doff k io acc = Inl UnicodeDecodeError \<and> (\<exists>bs. decode bs = None)"
  using assms
proof (induction k arbitrary: io acc j)
  case 0
  then show ?case by simp
next
  case (Suc k)
  let ?w = "if version = 1 then 8 else (12::int)"
  have inside: "io + nl + ?w \<le> int (length f)"
  proof -
    have "0 \<le> int k * (nl + ?w)"
      using Suc.prems(3) by simp
    then show ?thesis
      using Suc.prems(4) by (simp add: algebra_simps)
  qed
  show ?case
  proof (cases "read_string decode f io (nat nl)")
    case (Inl x)
    then have "x = UnicodeDecodeError \<and> (\<exists>bs. decode bs = None)"
      using Suc.prems(2) by (rule read_string_inside [rotated])
    with Inl show ?thesis by simp
  next
    case (Inr name)
    from read_fields_inside [of "io + nl" version f doff] inside Suc.prems(2,3)
    obtain off1 sz1 where f1: "read_fields f version doff (io + nl) = Inr (off1, sz1, io + nl + ?w)"
      by (auto simp: add.assoc)
    let ?e = "\<lparr>entry_name = name, entry_offset = off1, entry_size = sz1, entry_type = []\<rparr>"
    show ?thesis
    proof (cases "check_placement ?e (max_offset f)")
      case False
      with Inr f1 show ?thesis by simp
    next
      case True
      have "j \<noteq> 0"
      proof
        assume "j = 0"
        with Suc.prems(5) f1 have "off1 = off" "sz1 = sz" by simp_all
        with True Suc.prems(6) show False
          by (simp add: check_placement_def max_offset_def)
      qed
      then obtain j' where j': "j = Suc j'" by (cases j) auto
      have "read_index decode f version nl doff k (io + nl + ?w) (acc @ [?e]) = Inr None
          \<or> read_index decode f version nl doff k (io + nl + ?w) (acc @ [?e]) = Inl UnicodeDecodeError
             \<and> (\<exists>bs. decode bs = None)"
      proof (rule Suc.IH [of j'])
        show "j' < k" using Suc.prems(1) j' by simp
        show "0 \<le> io + nl + ?w" using Suc.prems(2,3) by simp
        show "0 \<le> nl" by (rule Suc.prems(3))
        show "io + nl + ?w + int k * (nl + ?w) \<le> int (length f)"
          using Suc.prems(4) by (simp add: algebra_simps)
        show "read_fields f version doff (io + nl + ?w + int j' * (nl + ?w) + nl) = Inr (off, sz, io')"
          using Suc.prems(5) j' by (simp add: algebra_simps)
        show "off + sz > int (length f)" by (rule Suc.prems(6))
      qed
      with Inr f1 True show ?thesis by simp
    qed
  qed
qed

lemma try_open_rejects:
  assumes h: "read_header f = Inr (Some (count, nl, doff))"
    and v: "index_version count nl doff = Some version"
    and i: "i < nat count"
    and r: "read_fields f version doff (7 + int i * (nl + (if version = 1 then 8 else 12)) + nl)
              = Inr (off, sz, io')"
    and bad: "off + sz > int (length f)"
  shows "try_open decode splitext arc_name f = Inr None
       \<or> try_open decode splitext arc_name f = Inl UnicodeDecodeError \<and> (\<exists>bs. decode bs = None)"
proof -
  have c: "0 < count" and n: "0 < nl" and d: "doff < int (length f)"
    using h by (rule read_header_sane)+
  have "doff = 7 + int (nat count) * (nl + (if version = 1 then 8 else 12))"
    using v c by (auto simp: index_version_def Let_def algebra_simps split: if_splits)
  then have fits: "7 + int (nat count) * (nl + (if version = 1 then 8 else 12)) \<le> int (length f)"
    using d by simp
  have "read_index decode f version nl doff (nat count) 7 [] = Inr None
       \<or> read_index decode f version nl doff (nat count) 7 [] = Inl UnicodeDecodeError
          \<and> (\<exists>bs. decode bs = None)"
    using i _ _ fits r bad by (rule read_index_rejects) (use n in simp_all)
  then show ?thesis
    by (auto simp: try_open_def h v parse_entries_def)
qed

lemma try_open_whole:
  assumes "try_open decode splitext arc_name f = Inr (Some es)"
  shows "\<exists>count nl doff. read_header f = Inr (Some (count, nl, doff)) \<and> int (length es) = count"
proof -
  from assms obtain count nl doff version where
    h: "read_header f = Inr (Some (count, nl, doff))"
    and p: "parse_entries decode splitext arc_name f version count nl doff = Inr (Some es)"
    by (auto simp: try_open_def split: sum.splits option.splits)
  from p obtain ds where r: "read_index decode f version nl doff (nat count) 7 [] = Inr (Some ds)"
    and s: "sniff_all splitext arc_name f ds = Inr es"
    by (auto simp: parse_entries_def split: sum.splits option.splits)
  have "0 < count"
    using h by (rule read_header_sane)
  with read_index_placed [OF r] sniff_all_length [OF s] have "int (length es) = count"
    by simp
  with h show ?thesis by blast
qed

lemma read_string_decoded:
  "0 \<le> p \<Longrightarrow> decode (take n (drop (nat p) f)) \<noteq> None \<Longrightarrow> \<exists>name. read_string decode f p n = Inr name"
  by (auto simp: read_string_def file_read_def split: option.splits)

lemma read_index_rejects_decoded:
  assumes "j < k" and "0 \<le> io" and "0 \<le> nl"
    and "io + int k * (nl + (if version = 1 then 8 else 12)) \<le> int (length f)"
    and "read_fields f version doff (io + int j * (nl + (if version = 1 then 8 else 12)) + nl) = Inr (off, sz, io')"
    and "off + sz > int (length f)"
    and "\<forall>j' \<le> j. decode (take (nat nl)
            (drop (nat (io + int j' * (nl + (if version = 1 then 8 else 12)))) f)) \<noteq> None"
  shows "read_index decode f version nl doff k io acc = Inr None"
  using assms
proof (induction k arbitrary: io acc j)
  case 0
  then show ?case by simp
next
  case (Suc k)
  let ?w = "if version = 1 then 8 else (12::int)"
  have inside: "io + nl + ?w \<le> int (length f)"
  proof -
    have "0 \<le> int k * (nl + ?w)"
      using Suc.prems(3) by simp
    then show ?thesis
      using Suc.prems(4) by (simp add: algebra_simps)
  qed
  have "decode (take (nat nl) (drop (nat (io + int 0 * (nl + ?w))) f)) \<noteq> None"
    using Suc.prems(7) by blast
  then have "decode (take (nat nl) (drop (nat io) f)) \<noteq> None"
    by simp
  with Suc.prems(2) obtain name where name: "read_string decode f io (nat nl) = Inr name"
    using read_string_decoded by blast
  from read_fields_inside [of "io + nl" version f doff] inside Suc.prems(2,3)
  obtain off1 sz1 where f1: "read_fields f version doff (io + nl) = Inr (off1, sz1, io + nl + ?w)"
    by (auto simp: add.assoc)
  let ?e = "\<lparr>entry_name = name, entry_offset = off1, entry_size = sz1, entry_type = []\<rparr>"
  show ?case
  proof (cases "check_placement ?e (max_offset f)")
    case False
    with name f1 show ?thesis by simp
  next
    case True
    have "j \<noteq> 0"
    proof
      assume "j = 0"
      with Suc.prems(5) f1 have "off1 = off" "sz1 = sz" by simp_all
      with True Suc.prems(6) show False
        by (simp add: check_placement_def max_offset_def)
    qed
    then obtain j' where j': "j = Suc j'" by (cases j) auto
    have "read_index decode f version nl doff k (io + nl + ?w) (acc @ [?e]) = Inr None"
    proof (rule Suc.IH [of j'])
      show "j' < k" using Suc.prems(1) j' by simp
      show "0 \<le> io + nl + ?w" using Suc.prems(2,3) by simp
      show "0 \<le> nl" by (rule Suc.prems(3))
      show "io + nl + ?w + int k * (nl + ?w) \<le> int (length f)"
        using Suc.prems(4) by (simp add: algebra_simps)
      show "read_fields f version doff (io + nl + ?w + int j' * (nl + ?w) + nl) = Inr (off, sz, io')"
        using Suc.prems(5) j' by (simp add: algebra_simps)
      show "off + sz > int (length f)" by (rule Suc.prems(6))
      show "\<forall>j'' \<le> j'. decode (take (nat nl) (drop (nat (io + nl + ?w + int j'' * (nl + ?w))) f)) \<noteq> None"
      proof (intro allI impI)
        fix j'' assume "j'' \<le> j'"
        then have "Suc j'' \<le> j"
          using j' by simp
        with Suc.prems(7) have "decode (take (nat nl) (drop (nat (io + int (Suc j'') * (nl + ?w))) f)) \<noteq> None"
          by blast
        moreover have "io + int (Suc j'') * (nl + ?w) = io + nl + ?w + int j'' * (nl + ?w)"
          by (simp add: algebra_simps)
        ultimately show "decode (take (nat nl) (drop (nat (io + nl + ?w + int j'' * (nl + ?w))) f)) \<noteq> None"
          by (simp only: simp_thms)
      qed
    qed
    with name f1 True show ?thesis by simp
  qed
qed

lemma try_open_rejects_decoded:
  assumes h: "read_header f = Inr (Some (count, nl, doff))"
    and v: "index_version count nl doff = Some version"
    and i: "i < nat count"
    and r: "read_fields f version doff (7 + int i * (nl + (if version = 1 then 8 else 12)) + nl)
              = Inr (off, sz, io')"
    and bad: "off + sz > int (length f)"
    and names: "\<forall>j \<le> i. decode (take (nat nl)
                 (drop (nat (7 + int j * (nl + (if version = 1 then 8 else 12)))) f)) \<noteq> None"
  shows "try_open decode splitext arc_name f = Inr None"
proof -
  have c: "0 < count" and n: "0 < nl" and d: "doff < int (length f)"
    using h by (rule read_header_sane)+
  have "doff = 7 + int (nat count) * (nl + (if version = 1 then 8 else 12))"
    using v c by (auto simp: index_version_def Let_def algebra_simps split: if_splits)
  then have fits: "7 + int (nat count) * (nl + (if version = 1 then 8 else 12)) \<le> int (length f)"
    using d by simp
  have "read_index decode f version nl doff (nat count) 7 [] = Inr None"
    using i _ _ fits r bad names by (rule read_index_rejects_decoded) (use n in simp_all)
  then show ?thesis
    by (simp add: try_open_def h v parse_entries_def)
qed

lemma try_open_raises:
  assumes h: "read_header f = Inr (Some (count, nl, doff))"
    and v: "index_version count nl doff = Some version"
    and name: "decode (take (nat nl) (drop 7 f)) = None"
  shows "try_open decode splitext arc_name f = Inl UnicodeDecodeError"
proof -
  have "0 < count"
    using h by (rule read_header_sane)
  then obtain k where k: "nat count = Suc k"
    by (cases "nat count") auto
  have "read_string decode f 7 (nat nl) = Inl UnicodeDecodeError"
    using name by (simp add: read_string_def file_read_def)
  then have "read_index decode f version nl doff (nat count) 7 [] = Inl UnicodeDecodeError"
    by (simp add: k)
  then show ?thesis
    by (simp add: try_open_def h v parse_entries_def)
qed

lemma read_header_bad_name: "read_header bad_name_archive = Inr (Some (1, 4, 19))"
  by (simp add: bad_name_archive_def read_header_def reader_defs is_sane_count_def)

lemma read_fields_bad_name:
  "read_fields bad_name_archive 1 19 (7 + int 0 * (4 + (if (1::nat) = 1 then 8 else 12)) + 4)
     = Inr (19, 5, 19)"
  by (simp add: bad_name_archive_def read_fields_def reader_defs)

lemma try_open_bad_name:
  "try_open ascii_strict stem (py_str ''se'') bad_name_archive = Inl UnicodeDecodeError"
  by (simp add: try_open_def read_header_bad_name index_version_def parse_entries_def)
     (simp add: bad_name_archive_def reader_defs ascii_strict_def)

text \<open>
  C4 (as amended). Every entry of a returned index lies inside the file, and a returned
  index holds all \<open>count\<close> entries. If the record at position \<open>i\<close> of the directory
  stores an offset and size that end past the file, \<open>try_open\<close> returns no list at all:
  it returns \<open>None\<close> when the names of the records 0 to \<open>i\<close> decode, and otherwise the
  only other outcome is the \<open>UnicodeDecodeError\<close> of a name, since a record's name is
  decoded before its placement is checked. A first name that does not decode always
  raises.
\<close>

theorem placement_gate:
  "(try_open decode splitext arc_name f = Inr (Some es) \<longrightarrow>
      (\<forall>e \<in> set es. entry_offset e + entry_size e \<le> int (length f))
      \<and> (\<exists>count nl doff. read_header f = Inr (Some (count, nl, doff)) \<and> int (length es) = count))
   \<and> (read_header f = Inr (Some (count, nl, doff))
      \<and> index_version count nl doff = Some version
      \<and> i < nat count
      \<and> read_fields f version doff (7 + int i * (nl + (if version = 1 then 8 else 12)) + nl)
           = Inr (off, sz, io')
      \<and> off + sz > int (length f) \<longrightarrow>
        (try_open decode splitext arc_name f = Inr None
         \<or> try_open decode splitext arc_name f = Inl UnicodeDecodeError \<and> (\<exists>bs. decode bs = None))
        \<and> ((\<forall>j \<le> i. decode (take (nat nl)
                 (drop (nat (7 + int j * (nl + (if version = 1 then 8 else 12)))) f)) \<noteq> None)
             \<longrightarrow> try_open decode splitext arc_name f = Inr None))
   \<and> (read_header f = Inr (Some (count, nl, doff))
      \<and> index_version count nl doff = Some version
      \<and> decode (take (nat nl) (drop 7 f)) = None \<longrightarrow>
        try_open decode splitext arc_name f = Inl UnicodeDecodeError)"
  using try_open_placed [of decode splitext arc_name f es]
    try_open_whole [of decode splitext arc_name f es]
    try_open_rejects [of f count nl doff version i off sz io' decode splitext arc_name]
    try_open_rejects_decoded [of f count nl doff version i off sz io' decode splitext arc_name]
    try_open_raises [of f count nl doff version decode splitext arc_name]
  by blast

theorem placement_gate_witness:
  "try_open latin1 stem (py_str ''se'') ogg_archive =
     Inr (Some [\<lparr>entry_name = py_str ''test.ogg'', entry_offset = 19, entry_size = 4,
                 entry_type = ''audio''\<rparr>])
   \<and> (19::int) + 4 \<le> int (length ogg_archive)
   \<and> try_open ascii_strict stem (py_str ''se'') bad_archive = Inr None
   \<and> try_open ascii_strict stem (py_str ''se'') bad_name_archive = Inl UnicodeDecodeError"
proof -
  have "(19::int) + 4 \<le> int (length ogg_archive)"
    using placement_gate [of latin1 stem "py_str ''se''" ogg_archive
        "[\<lparr>entry_name = py_str ''test.ogg'', entry_offset = 19, entry_size = 4,
                 entry_type = ''audio''\<rparr>]"] try_open_ogg
    by simp
  moreover have v: "index_version 1 4 19 = Some 1"
    by (simp add: index_version_def)
  have names: "\<forall>j \<le> (0::nat). ascii_strict (take (nat 4)
                 (drop (nat (7 + int j * (4 + (if (1::nat) = 1 then 8 else 12)))) bad_archive)) \<noteq> None"
    by (simp add: bad_archive_def ascii_strict_def)
  have "try_open ascii_strict stem (py_str ''se'') bad_archive = Inr None"
    using placement_gate [of ascii_strict stem "py_str ''se''" bad_archive _ 1 4 19 1 0 19 5 19]
      read_header_bad read_fields_bad v names
    by (simp add: bad_archive_def)
  moreover have "ascii_strict (take (nat 4) (drop 7 bad_name_archive)) = None"
    by (simp add: bad_name_archive_def ascii_strict_def)
  then have "try_open ascii_strict stem (py_str ''se'') bad_name_archive = Inl UnicodeDecodeError"
    using placement_gate [of ascii_strict stem "py_str ''se''" bad_name_archive _ 1 4 19 1]
      read_header_bad_name v
    by simp
  ultimately show ?thesis
    using try_open_ogg by blast
qed

text \<open>
  The one record of this archive ends past the file and its name does not decode: the
  parser raises instead of returning \<open>None\<close>.
\<close>

theorem placement_gate_counterexample:
  "read_header bad_name_archive = Inr (Some (1, 4, 19))
   \<and> index_version 1 4 19 = Some 1
   \<and> read_fields bad_name_archive 1 19 11 = Inr (19, 5, 19)
   \<and> int (length bad_name_archive) < 19 + 5
   \<and> try_open ascii_strict stem (py_str ''se'') bad_name_archive = Inl UnicodeDecodeError
   \<and> try_open ascii_strict stem (py_str ''se'') bad_name_archive \<noteq> Inr None"
  using read_header_bad_name read_fields_bad_name try_open_bad_name
  by (simp add: index_version_def bad_name_archive_def)

section \<open>The GRD header\<close>

lemma slice_take: 
  assumes "j \<le> n" shows "py_slice i j (take n xs) = py_slice i j xs"
proof -
  have "take (j - i) (drop i (take n xs)) = take (j - i) (take (n - i) (drop i xs))"
    by (simp only: drop_take)
  also have "\<dots> = take (min (j - i) (n - i)) (drop i xs)"
    by (simp only: take_take)
  also have "min (j - i) (n - i) = j - i"
    using assms by simp
  finally show ?thesis
    by (simp only: py_slice_def)
qed

lemma length_slice: "j \<le> length xs \<Longrightarrow> length (py_slice i j xs) = j - i"
  by (simp add: py_slice_def)

lemma slice_slice:
  assumes "k + b \<le> j" shows "py_slice a b (py_slice k j xs) = py_slice (k + a) (k + b) xs"
proof -
  have "take (b - a) (drop a (take (j - k) (drop k xs)))
      = take (b - a) (take (j - k - a) (drop a (drop k xs)))"
    by (simp only: drop_take)
  also have "\<dots> = take (min (b - a) (j - k - a)) (drop (a + k) xs)"
    by (simp only: take_take drop_drop)
  also have "min (b - a) (j - k - a) = k + b - (k + a)"
    using assms by simp
  also have "a + k = k + a"
    by simp
  finally show ?thesis
    by (simp only: py_slice_def)
qed

lemma header_fields:
  assumes "32 \<le> length file" and "j = i + w * n" and "j \<le> 32"
  shows "struct_unpack w n (py_slice i j (take 32 file))
     = Inr (map (\<lambda>k. int (le_nat (py_slice (i + k * w) (i + k * w + w) file))) [0 ..< n])"
proof -
  have s: "py_slice i j (take 32 file) = py_slice i j file"
    using assms(3) by (rule slice_take)
  have l: "length (py_slice i j file) = w * n"
    using assms by (simp add: length_slice)
  have inner: "py_slice (k * w) (k * w + w) (py_slice i j file)
      = py_slice (i + k * w) (i + k * w + w) file" if "k < n" for k
  proof -
    have "(k + 1) * w \<le> n * w"
      using that by (intro mult_le_mono1) simp
    then have "i + (k * w + w) \<le> j"
      using assms(2) by (simp add: algebra_simps)
    then have "py_slice (k * w) (k * w + w) (py_slice i j file)
      = py_slice (i + k * w) (i + (k * w + w)) file"
      by (rule slice_slice)
    then show ?thesis
      by (simp only: add.assoc)
  qed
  have "struct_unpack w n (py_slice i j file)
      = Inr (map (\<lambda>k. int (le_nat (py_slice (k * w) (k * w + w) (py_slice i j file)))) [0 ..< n])"
    using l by (simp only: struct_unpack_def if_False simp_thms)
  also have "map (\<lambda>k. int (le_nat (py_slice (k * w) (k * w + w) (py_slice i j file)))) [0 ..< n]
      = map (\<lambda>k. int (le_nat (py_slice (i + k * w) (i + k * w + w) file))) [0 ..< n]"
    by (rule map_cong) (simp_all add: inner)
  finally show ?thesis
    by (simp only: s)
qed

lemma upt_small: "[0 ..< 1] = [0::nat]" "[0 ..< 2] = [0::nat, 1]" "[0 ..< 4] = [0::nat, 1, 2, 3]"
  by (simp_all add: upt_rec)

lemma small_Suc: "Suc (Suc 0) = 2" "Suc (Suc (Suc (Suc 0))) = 4"
  by simp_all

lemma header_parts:
  assumes "32 \<le> length file"
  shows "struct_unpack 2 1 (py_slice 6 8 (take 32 file)) = Inr [int (le_nat (py_slice 6 8 file))]"
    and "struct_unpack 2 2 (py_slice 2 6 (take 32 file))
          = Inr [int (le_nat (py_slice 2 4 file)), int (le_nat (py_slice 4 6 file))]"
    and "struct_unpack 2 4 (py_slice 8 16 (take 32 file))
          = Inr [int (le_nat (py_slice 8 10 file)), int (le_nat (py_slice 10 12 file)),
                 int (le_nat (py_slice 12 14 file)), int (le_nat (py_slice 14 16 file))]"
    and "struct_unpack 2 1 (py_slice 0 2 (take 32 file)) = Inr [int (le_nat (py_slice 0 2 file))]"
    and "struct_unpack 4 4 (py_slice 16 32 (take 32 file))
          = Inr [int (le_nat (py_slice 16 20 file)), int (le_nat (py_slice 20 24 file)),
                 int (le_nat (py_slice 24 28 file)), int (le_nat (py_slice 28 32 file))]"
  using header_fields [OF assms, of 8 6 2 1] header_fields [OF assms, of 6 2 2 2]
    header_fields [OF assms, of 16 8 2 4] header_fields [OF assms, of 2 0 2 1]
    header_fields [OF assms, of 32 16 4 4]
  by (simp_all add: upt_small small_Suc)

lemma read_grd_metadata_full:
  assumes "32 \<le> length file"
  shows "read_grd_metadata file =
     (if file ! 0 \<notin> {1, 2} then Inr None
      else if file ! 1 \<notin> {1, 0xA1, 0xA2} then Inr None
      else if int (le_nat (py_slice 6 8 file)) \<notin> {24, 32} then Inr None
      else if 32 + int (le_nat (py_slice 16 20 file)) + int (le_nat (py_slice 20 24 file))
                 + int (le_nat (py_slice 28 32 file)) + int (le_nat (py_slice 24 28 file))
               \<noteq> int (length file) then Inr None
      else Inr (Some \<lparr>Format = int (le_nat (py_slice 0 2 file)),
                  Width = \<bar>int (le_nat (py_slice 10 12 file)) - int (le_nat (py_slice 8 10 file))\<bar>,
                  Height = \<bar>int (le_nat (py_slice 14 16 file)) - int (le_nat (py_slice 12 14 file))\<bar>,
                  BPP = int (le_nat (py_slice 6 8 file)),
                  OffsetX = int (le_nat (py_slice 8 10 file)),
                  OffsetY = int (le_nat (py_slice 4 6 file)) - int (le_nat (py_slice 14 16 file)),
                  AlphaSize = int (le_nat (py_slice 16 20 file)),
                  RSize = int (le_nat (py_slice 20 24 file)),
                  GSize = int (le_nat (py_slice 24 28 file)),
                  BSize = int (le_nat (py_slice 28 32 file))\<rparr>))"
proof -
  have len: "length (take 32 file) = 32"
    using assms by simp
  have h: "take 32 file ! 0 = file ! 0" "take 32 file ! 1 = file ! 1"
    by simp_all
  show ?thesis
    unfolding read_grd_metadata_def Let_def header_parts [OF assms] len h
    by (simp del: insert_iff)
qed

text \<open>
  C5. On a file of at least 32 bytes \<open>read_grd_metadata\<close> raises nothing, and it returns
  \<open>None\<close> exactly when byte 0 is not 1 or 2, or byte 1 is not 1, 0xA1 or 0xA2, or the
  bits per pixel are not 24 or 32, or 32 plus the four channel sizes is not the length of
  the file. Otherwise the width and the height of the result are the absolute differences
  of the box's edges.
\<close>

theorem read_grd_metadata_checks:
  assumes "32 \<le> length file"
  shows "(read_grd_metadata file = Inr None \<longleftrightarrow>
            file ! 0 \<notin> {1, 2} \<or> file ! 1 \<notin> {1, 0xA1, 0xA2}
            \<or> int (le_nat (py_slice 6 8 file)) \<notin> {24, 32}
            \<or> 32 + int (le_nat (py_slice 16 20 file)) + int (le_nat (py_slice 20 24 file))
                 + int (le_nat (py_slice 24 28 file)) + int (le_nat (py_slice 28 32 file))
               \<noteq> int (length file))
       \<and> (\<forall>info. read_grd_metadata file = Inr (Some info) \<longrightarrow>
            Width info = \<bar>int (le_nat (py_slice 10 12 file)) - int (le_nat (py_slice 8 10 file))\<bar>
            \<and> Height info = \<bar>int (le_nat (py_slice 14 16 file)) - int (le_nat (py_slice 12 14 file))\<bar>)
       \<and> (\<forall>x. read_grd_metadata file \<noteq> Inl x)"
proof (intro conjI allI impI)
  show "read_grd_metadata file = Inr None \<longleftrightarrow>
            file ! 0 \<notin> {1, 2} \<or> file ! 1 \<notin> {1, 0xA1, 0xA2}
            \<or> int (le_nat (py_slice 6 8 file)) \<notin> {24, 32}
            \<or> 32 + int (le_nat (py_slice 16 20 file)) + int (le_nat (py_slice 20 24 file))
                 + int (le_nat (py_slice 24 28 file)) + int (le_nat (py_slice 28 32 file))
               \<noteq> int (length file)"
    unfolding read_grd_metadata_full [OF assms]
    by (simp del: insert_iff add: add.assoc add.left_commute add.commute)
next
  fix info assume "read_grd_metadata file = Inr (Some info)"
  then have "info = \<lparr>Format = int (le_nat (py_slice 0 2 file)),
                  Width = \<bar>int (le_nat (py_slice 10 12 file)) - int (le_nat (py_slice 8 10 file))\<bar>,
                  Height = \<bar>int (le_nat (py_slice 14 16 file)) - int (le_nat (py_slice 12 14 file))\<bar>,
                  BPP = int (le_nat (py_slice 6 8 file)),
                  OffsetX = int (le_nat (py_slice 8 10 file)),
                  OffsetY = int (le_nat (py_slice 4 6 file)) - int (le_nat (py_slice 14 16 file)),
                  AlphaSize = int (le_nat (py_slice 16 20 file)),
                  RSize = int (le_nat (py_slice 20 24 file)),
                  GSize = int (le_nat (py_slice 24 28 file)),
                  BSize = int (le_nat (py_slice 28 32 file))\<rparr>"
    unfolding read_grd_metadata_full [OF assms]
    by (simp del: insert_iff split: if_splits)
  then show "Width info = \<bar>int (le_nat (py_slice 10 12 file)) - int (le_nat (py_slice 8 10 file))\<bar>"
    and "Height info = \<bar>int (le_nat (py_slice 14 16 file)) - int (le_nat (py_slice 12 14 file))\<bar>"
    by simp_all
next
  fix x show "read_grd_metadata file \<noteq> Inl x"
    unfolding read_grd_metadata_full [OF assms]
    by (simp del: insert_iff)
qed

lemma read_sample_grd:
  "read_grd_metadata sample_grd =
     Inr (Some \<lparr>Format = 257, Width = 2, Height = 2, BPP = 24, OffsetX = 0, OffsetY = 478,
                 AlphaSize = 0, RSize = 2, GSize = 2, BSize = 2\<rparr>)"
  by (simp add: read_grd_metadata_full sample_grd_def py_slice_def le_nat_def)

theorem read_grd_metadata_checks_witness:
  "32 \<le> length sample_grd
   \<and> read_grd_metadata sample_grd \<noteq> Inr None
   \<and> (\<exists>info. read_grd_metadata sample_grd = Inr (Some info) \<and> Width info = 2 \<and> Height info = 2)
   \<and> read_grd_metadata (sample_grd @ [0x00]) = Inr None"
proof -
  have l: "32 \<le> length sample_grd" "32 \<le> length (sample_grd @ [0x00])"
    by (simp_all add: sample_grd_def)
  have "read_grd_metadata sample_grd \<noteq> Inr None"
    using read_grd_metadata_checks [OF l(1)]
    by (simp add: sample_grd_def py_slice_def le_nat_def)
  moreover have "read_grd_metadata (sample_grd @ [0x00]) = Inr None"
    using read_grd_metadata_checks [OF l(2)]
    by (simp add: sample_grd_def py_slice_def le_nat_def)
  ultimately show ?thesis
    using l(1) read_sample_grd by simp
qed

section \<open>Run-length expansion\<close>

lemma mask7: "(n::nat) AND 0x7F = n mod 128"
proof -
  have "(0x7F::nat) = mask 7"
    by (simp add: mask_eq_exp_minus_1)
  then have "n AND 0x7F = take_bit 7 n"
    by (simp only: take_bit_eq_mask)
  then show ?thesis
    by (simp add: take_bit_eq_mod)
qed

lemma slice_assign_inside:
  assumes "dst + length ys \<le> length a"
  shows "length (slice_assign a dst (dst + length ys) ys) = length a"
    and "i < length a \<Longrightarrow> slice_assign a dst (dst + length ys) ys ! i
           = (if dst \<le> i \<and> i < dst + length ys then ys ! (i - dst) else a ! i)"
proof -
  show "length (slice_assign a dst (dst + length ys) ys) = length a"
    using assms by (simp add: slice_assign_def)
  assume i: "i < length a"
  show "slice_assign a dst (dst + length ys) ys ! i
           = (if dst \<le> i \<and> i < dst + length ys then ys ! (i - dst) else a ! i)"
  proof (cases "i < dst")
    case True
    then show ?thesis
      using assms by (simp add: slice_assign_def nth_append)
  next
    case False
    note ge = this
    show ?thesis
    proof (cases "i < dst + length ys")
      case True
      then have "i - dst < length ys"
        using ge by simp
      then show ?thesis
        using assms ge True by (simp add: slice_assign_def nth_append min_def)
    next
      case False
      then have "i - dst - length ys + (dst + length ys) = i" and "\<not> i - dst < length ys"
        using ge by simp_all
      then show ?thesis
        using assms ge False i by (simp add: slice_assign_def nth_append min_def)
    qed
  qed
qed

text \<open>
  C6 (as amended). One step of the run-length loop, on a stream that still holds the
  bytes it reads. A control byte above 0x7F is masked to a repeat count between 0 and 127
  (the byte minus 128, so 0 for the control byte 0x80), and the byte after it is written
  that many times at \<open>dst\<close>. A control byte from 1 to 0x7F copies the next bytes of the
  stream, as many as it says or all that are left. A control byte 0 consumes itself and
  writes nothing. Writing \<open>ys\<close> at \<open>dst\<close> inside the buffer replaces exactly the bytes
  from \<open>dst\<close> to \<open>dst + length ys\<close>.
\<close>

theorem rle_step_cases:
  "(unat c > 0x7F \<longrightarrow>
      rle_step (c # v # s, src, dst, chan)
        = Inr (s, src + 2, dst + (unat c AND 0x7F),
               slice_assign chan dst (dst + (unat c AND 0x7F)) (replicate (unat c AND 0x7F) v))
      \<and> unat c AND 0x7F = unat c - 128 \<and> unat c AND 0x7F \<le> 127)
   \<and> (0 < unat c \<and> unat c \<le> 0x7F \<longrightarrow>
      rle_step (c # s, src, dst, chan)
        = Inr (drop (unat c) s, src + 1 + unat c, dst + unat c,
               slice_assign chan dst (dst + unat c) (take (unat c) s)))
   \<and> rle_step (0 # s, src, dst, chan) = Inr (s, src + 1, dst, chan)
   \<and> (dst + length ys \<le> length chan \<longrightarrow>
      length (slice_assign chan dst (dst + length ys) ys) = length chan
      \<and> (\<forall>i < length chan. slice_assign chan dst (dst + length ys) ys ! i
            = (if dst \<le> i \<and> i < dst + length ys then ys ! (i - dst) else chan ! i)))"
proof -
  have lt: "unat c < 256"
    using unsigned_less [of c] by simp
  then have m: "unat c > 0x7F \<longrightarrow> unat c mod 128 = unat c - 128"
    by (simp add: mod_if)
  have le: "unat c mod 128 \<le> 127"
    by simp
  have hi: "unat c > 0x7F \<longrightarrow>
      rle_step (c # v # s, src, dst, chan)
        = Inr (s, src + 2, dst + (unat c AND 0x7F),
               slice_assign chan dst (dst + (unat c AND 0x7F)) (replicate (unat c AND 0x7F) v))"
    by (simp add: rle_step_def Let_def)
  have lo: "0 < unat c \<and> unat c \<le> 0x7F \<longrightarrow>
      rle_step (c # s, src, dst, chan)
        = Inr (drop (unat c) s, src + 1 + unat c, dst + unat c,
               slice_assign chan dst (dst + unat c) (take (unat c) s))"
    by (simp add: rle_step_def Let_def)
  have z: "rle_step (0 # s, src, dst, chan) = Inr (s, src + 1, dst, chan)"
    by (simp add: rle_step_def Let_def)
  show ?thesis
    using slice_assign_inside [of dst ys chan] m le hi lo z
    unfolding mask7 by blast
qed

theorem rle_step_cases_witness:
  "rle_step ([0x83, 0x41, 0x09], 0, 1, [0, 0, 0, 0, 0]) = Inr ([0x09], 2, 4, [0, 0x41, 0x41, 0x41, 0])
   \<and> rle_step ([0x02, 0x07, 0x08, 0x09], 0, 1, [0, 0, 0, 0, 0]) = Inr ([0x09], 3, 3, [0, 0x07, 0x08, 0, 0])
   \<and> slice_assign [0, 0, 0, 0, 0 :: byte] 1 (1 + length [0x07, 0x08 :: byte]) [0x07, 0x08] ! 2 = 0x08"
  using rle_step_cases [of "0x83" "0x41" "[0x09]" 0 1 "[0, 0, 0, 0, 0]" "[0x07, 0x08]"]
    rle_step_cases [of "0x02" "0x07" "[0x07, 0x08, 0x09]" 0 1 "[0, 0, 0, 0, 0]" "[0x07, 0x08]"]
  by (simp add: slice_assign_def)

text \<open>
  The control byte 0x80 has its high bit set and a repeat count of zero: the step takes
  the byte after it and writes nothing.
\<close>

theorem rle_repeat_count_counterexample:
  "unat (0x80 :: byte) > 0x7F \<and> unat (0x80 :: byte) AND 0x7F = 0
   \<and> rle_step ([0x80, 0x41], 0, 0, [0x00, 0x00]) = Inr ([], 2, 0, [0x00, 0x00])"
  by (simp add: rle_step_def slice_assign_def)

section \<open>LZ77 back-references\<close>

lemma py_get_inside: "i < length xs \<Longrightarrow> py_get xs (int i) = Inr (xs ! i)"
  by (simp add: py_get_def py_index_def)

lemma py_set_inside: "i < length xs \<Longrightarrow> py_set xs (int i) v = Inr (xs[i := v])"
  by (simp add: py_set_def py_index_def)

lemma lz77_copy_offset1:
  "1 \<le> dst \<Longrightarrow> dst + n \<le> length out \<Longrightarrow>
   lz77_copy n 1 dst out
     = Inr (dst + n, take dst out @ replicate n (out ! (dst - 1)) @ drop (dst + n) out)"
proof (induction n arbitrary: dst out)
  case 0
  then show ?case by simp
next
  case (Suc n)
  let ?v = "out ! (dst - 1)"
  let ?out = "out[dst := ?v]"
  have g: "py_get out (int dst - 1) = Inr ?v"
    using Suc.prems py_get_inside [of "dst - 1" out] by (simp add: of_nat_diff)
  have s: "py_set out (int dst) ?v = Inr ?out"
    using Suc.prems by (simp add: py_set_inside)
  have ih: "lz77_copy n 1 (dst + 1) ?out
     = Inr (dst + 1 + n, take (dst + 1) ?out @ replicate n (?out ! (dst + 1 - 1)) @ drop (dst + 1 + n) ?out)"
    using Suc.prems by (intro Suc.IH) simp_all
  have t: "take (dst + 1) ?out = take dst out @ [?v]"
    using Suc.prems by (simp add: take_Suc_conv_app_nth)
  have n: "?out ! (dst + 1 - 1) = ?v"
    using Suc.prems by simp
  have d: "drop (dst + 1 + n) ?out = drop (dst + Suc n) out"
    by simp
  have "lz77_copy (Suc n) 1 dst out = lz77_copy n 1 (dst + 1) ?out"
    by (simp only: lz77_copy.simps g s sum.case)
  also have "\<dots> = Inr (dst + 1 + n, (take dst out @ [?v]) @ replicate n ?v @ drop (dst + Suc n) out)"
    by (simp only: ih t n d)
  also have "\<dots> = Inr (dst + Suc n, take dst out @ replicate (Suc n) ?v @ drop (dst + Suc n) out)"
    by simp
  finally show ?case .
qed

text \<open>
  C7. A back-reference whose offset, once adjusted, is 1 copies the byte just before
  \<open>dst\<close> into each of the next \<open>count\<close> positions, since every copied byte is read
  after the one before it was written. This holds for any \<open>count\<close> that fits the
  buffer, five among them, when there is a byte before \<open>dst\<close>.
\<close>

theorem lz77_overlapping_copy:
  assumes "src + 2 < length input_data"
    and "input_data ! src = special"
    and "input_data ! (src + 1) \<noteq> special"
    and "(if input_data ! (src + 1) > special then int (unat (input_data ! (src + 1))) - 1
          else int (unat (input_data ! (src + 1)))) = 1"
    and "1 \<le> dst"
    and "dst + unat (input_data ! (src + 2)) \<le> length out"
  shows "lz77_step input_data special (src, dst, out)
     = Inr (src + 3, dst + unat (input_data ! (src + 2)),
            take dst out @ replicate (unat (input_data ! (src + 2))) (out ! (dst - 1))
              @ drop (dst + unat (input_data ! (src + 2))) out)"
proof -
  let ?eff = "if input_data ! (src + 1) > special then int (unat (input_data ! (src + 1))) - 1
          else int (unat (input_data ! (src + 1)))"
  have copy: "lz77_copy (unat (input_data ! (src + 2))) 1 dst out
     = Inr (dst + unat (input_data ! (src + 2)),
            take dst out @ replicate (unat (input_data ! (src + 2))) (out ! (dst - 1))
              @ drop (dst + unat (input_data ! (src + 2))) out)"
    using assms(5,6) by (rule lz77_copy_offset1)
  have i: "\<not> src \<ge> length input_data" "\<not> src + 1 \<ge> length input_data"
    "\<not> src + 2 \<ge> length input_data"
    using assms(1) by simp_all
  have a: "src + 1 + 1 = src + 2" "src + 2 + 1 = src + 3"
    by simp_all
  have "lz77_step input_data special (src, dst, out)
      = (case lz77_copy (unat (input_data ! (src + 2))) ?eff dst out of Inl x \<Rightarrow> Inl x
         | Inr (dst', output') \<Rightarrow> Inr (src + 3, dst', output'))"
    unfolding lz77_step_def Let_def prod.case
    by (simp only: i assms(2,3) if_False if_True simp_thms a not_False_eq_True)
  then show ?thesis
    by (simp only: assms(4) copy sum.case prod.case)
qed

theorem lz77_overlapping_copy_witness:
  "lz77_step [0x00, 0x1B, 0x01, 0x05] 0x1B (1, 2, [0x41, 0x42, 0, 0, 0, 0, 0, 0])
     = Inr (4, 7, [0x41, 0x42, 0x42, 0x42, 0x42, 0x42, 0x42, 0])"
proof -
  have "replicate 5 (0x42 :: byte) = [0x42, 0x42, 0x42, 0x42, 0x42]"
    by (simp add: numeral_eq_Suc)
  then show ?thesis
    using lz77_overlapping_copy [of 1 "[0x00, 0x1B, 0x01, 0x05]" "0x1B" 2 "[0x41, 0x42, 0, 0, 0, 0, 0, 0]"]
    by simp
qed

section \<open>Interleaving a channel\<close>

lemma interleave_row_frame:
  assumes "interleave_row n ps chan src dst out = Inr (dst', out')" and "0 \<le> dst" and "0 \<le> ps"
  shows "dst' = dst + int n * ps \<and> length out' = length out
    \<and> (\<forall>j < length out. (\<forall>k < n. int j \<noteq> dst + int k * ps) \<longrightarrow> out' ! j = out ! j)"
  using assms
proof (induction n arbitrary: src dst out)
  case 0
  then show ?case by simp
next
  case (Suc n)
  from Suc.prems(1) obtain v out1 where
    s: "py_set out dst v = Inr out1"
    and r: "interleave_row n ps chan (src + 1) (dst + ps) out1 = Inr (dst', out')"
    by (auto split: sum.splits)
  from s Suc.prems(2) have o1: "out1 = out[nat dst := v]" and inb: "dst < int (length out)"
    by (auto simp: py_set_def py_index_def split: if_splits option.splits)
  have ih: "dst' = dst + ps + int n * ps \<and> length out' = length out1
    \<and> (\<forall>j < length out1. (\<forall>k < n. int j \<noteq> dst + ps + int k * ps) \<longrightarrow> out' ! j = out1 ! j)"
    using Suc.prems(2,3) by (intro Suc.IH [OF r]) simp_all
  have "out' ! j = out ! j" if j: "j < length out" and fr: "\<forall>k < Suc n. int j \<noteq> dst + int k * ps" for j
  proof -
    have "\<forall>k < n. int j \<noteq> dst + ps + int k * ps"
    proof (intro allI impI)
      fix k assume "k < n"
      then have "Suc k < Suc n" by simp
      then have "int j \<noteq> dst + int (Suc k) * ps"
        using fr by blast
      then show "int j \<noteq> dst + ps + int k * ps"
        by (simp add: algebra_simps)
    qed
    then have "out' ! j = out1 ! j"
      using ih j o1 by simp
    moreover have "int j \<noteq> dst + int 0 * ps"
      using fr by blast
    then have "int j \<noteq> dst"
      by simp
    then have "out1 ! j = out ! j"
      using o1 Suc.prems(2) by (simp add: nth_list_update)
    ultimately show ?thesis by simp
  qed
  then show ?case
    using ih o1 by (simp add: algebra_simps)
qed

lemma interleave_rows_frame:
  assumes "interleave_rows y w ps chan dst out = Inr out'" and "0 \<le> dst" and "0 \<le> ps"
  shows "length out' = length out
    \<and> (\<forall>j < length out. (\<forall>k < y * w. int j \<noteq> dst + int k * ps) \<longrightarrow> out' ! j = out ! j)"
  using assms
proof (induction y arbitrary: dst out)
  case 0
  then show ?case by simp
next
  case (Suc y)
  from Suc.prems(1) obtain dst1 out1 where
    row: "interleave_row w ps chan (y * w) dst out = Inr (dst1, out1)"
    and rest: "interleave_rows y w ps chan dst1 out1 = Inr out'"
    by (auto split: sum.splits)
  from interleave_row_frame [OF row Suc.prems(2,3)] have
    d1: "dst1 = dst + int w * ps" and l1: "length out1 = length out"
    and f1: "\<forall>j < length out. (\<forall>k < w. int j \<noteq> dst + int k * ps) \<longrightarrow> out1 ! j = out ! j"
    by simp_all
  have "0 \<le> dst1"
    using d1 Suc.prems(2,3) by simp
  from Suc.IH [OF rest this Suc.prems(3)] have
    l2: "length out' = length out1"
    and f2: "\<forall>j < length out1. (\<forall>k < y * w. int j \<noteq> dst1 + int k * ps) \<longrightarrow> out' ! j = out1 ! j"
    by simp_all
  have "out' ! j = out ! j" if j: "j < length out" and fr: "\<forall>k < Suc y * w. int j \<noteq> dst + int k * ps" for j
  proof -
    have "\<forall>k < y * w. int j \<noteq> dst1 + int k * ps"
    proof (intro allI impI)
      fix k assume "k < y * w"
      then have "w + k < Suc y * w" by simp
      then have "int j \<noteq> dst + int (w + k) * ps"
        using fr by blast
      then show "int j \<noteq> dst1 + int k * ps"
        by (simp add: d1 algebra_simps)
    qed
    then have "out' ! j = out1 ! j"
      using f2 j l1 by simp
    moreover have "\<forall>k < w. int j \<noteq> dst + int k * ps"
    proof (intro allI impI)
      fix k assume "k < w"
      then have "k < Suc y * w" by simp
      then show "int j \<noteq> dst + int k * ps"
        using fr by blast
    qed
    then have "out1 ! j = out ! j"
      using f1 j by simp
    ultimately show ?thesis by simp
  qed
  then show ?case
    using l1 l2 by simp
qed

lemma decode_channel_keeps:
  "decode_channel self src_pos src_size = Some (Inr self') \<Longrightarrow>
   output_buffer self' = output_buffer self \<and> info self' = info self
   \<and> pixel_size self' = pixel_size self"
  by (auto simp: decode_channel_def Let_def split: if_splits sum.splits option.splits prod.splits)

lemma off_stride:
  assumes "0 \<le> d" and "d < ps" and "int j mod ps \<noteq> d"
  shows "int j \<noteq> d + int k * ps"
proof
  assume "int j = d + int k * ps"
  then have "int j mod ps = d mod ps"
    by simp
  then show False
    using assms by simp
qed

lemma interleave_keeps:
  assumes "interleave self d = Inr self'" and "0 \<le> d" and "0 \<le> pixel_size self"
  shows "length (output_buffer self') = length (output_buffer self)
    \<and> (\<forall>j < length (output_buffer self).
          (\<forall>k < nat (Height (info self)) * nat (Width (info self)).
              int j \<noteq> d + int k * pixel_size self)
          \<longrightarrow> output_buffer self' ! j = output_buffer self ! j)
    \<and> (d < pixel_size self \<longrightarrow>
         (\<forall>j < length (output_buffer self).
            int j mod pixel_size self \<noteq> d \<longrightarrow> output_buffer self' ! j = output_buffer self ! j))
    \<and> channel self' = channel self \<and> info self' = info self"
proof -
  from assms(1) obtain out where
    r: "interleave_rows (nat (Height (info self))) (nat (Width (info self)))
             (pixel_size self) (channel self) d (output_buffer self) = Inr out"
    and s: "self' = self\<lparr>output_buffer := out\<rparr>"
    by (auto simp: interleave_def split: sum.splits)
  from interleave_rows_frame [OF r assms(2,3)] have
    l: "length out = length (output_buffer self)"
    and f: "\<forall>j < length (output_buffer self).
          (\<forall>k < nat (Height (info self)) * nat (Width (info self)).
              int j \<noteq> d + int k * pixel_size self)
          \<longrightarrow> out ! j = output_buffer self ! j"
    by simp_all
  have m: "out ! j = output_buffer self ! j"
    if "d < pixel_size self" and "j < length (output_buffer self)"
      and "int j mod pixel_size self \<noteq> d" for j
    using f that off_stride [OF assms(2) that(1,3)] by simp
  show ?thesis
    using l f m by (simp add: s)
qed

text \<open>
  C10. Interleaving a channel at byte offset \<open>d\<close> keeps the length of the pixel buffer
  and changes no byte outside the indices \<open>d + k * pixel_size\<close> for \<open>k\<close> below
  \<open>Height * Width\<close>; when \<open>d < pixel_size\<close>, every byte at another offset within its
  pixel is unchanged. The channel buffer and the metadata are untouched.
\<close>

theorem interleave_frame:
  assumes "interleave self d = Inr self'" and "0 \<le> d" and "0 \<le> pixel_size self"
  shows "length (output_buffer self') = length (output_buffer self)
    \<and> (\<forall>j < length (output_buffer self).
          (\<forall>k < nat (Height (info self)) * nat (Width (info self)).
              int j \<noteq> d + int k * pixel_size self)
          \<longrightarrow> output_buffer self' ! j = output_buffer self ! j)
    \<and> (d < pixel_size self \<longrightarrow>
         (\<forall>j < length (output_buffer self).
            int j mod pixel_size self \<noteq> d \<longrightarrow> output_buffer self' ! j = output_buffer self ! j))
    \<and> channel self' = channel self \<and> info self' = info self"
  using assms by (rule interleave_keeps)

lemma interleave_sample:
  "interleave sample_reader 1
     = Inr (sample_reader\<lparr>output_buffer := [9, 3, 9, 9, 4, 9, 9, 1, 9, 9, 2, 9]\<rparr>)"
  by (simp add: interleave_def sample_reader_def numeral_2_eq_2 py_get_def py_set_def py_index_def)

theorem interleave_frame_witness:
  "interleave sample_reader 1
     = Inr (sample_reader\<lparr>output_buffer := [9, 3, 9, 9, 4, 9, 9, 1, 9, 9, 2, 9]\<rparr>)
   \<and> output_buffer (sample_reader\<lparr>output_buffer := [9, 3, 9, 9, 4, 9, 9, 1, 9, 9, 2, 9]\<rparr>) ! 5
       = output_buffer sample_reader ! 5"
  using interleave_frame [OF interleave_sample] interleave_sample
  by (simp add: sample_reader_def)

lemma unpack_channel_frame:
  assumes "unpack_channel self d src_pos src_size = Some (Inr self')"
    and "0 \<le> d" and "d < pixel_size self"
    and "j < length (output_buffer self)" and "int j mod pixel_size self \<noteq> d"
  shows "output_buffer self' ! j = output_buffer self ! j"
proof -
  from assms(1) obtain self1 where
    dc: "decode_channel self src_pos src_size = Some (Inr self1)"
    and il: "interleave self1 d = Inr self'"
    by (auto simp: unpack_channel_def split: option.splits sum.splits)
  note k = decode_channel_keeps [OF dc]
  have "0 \<le> pixel_size self1"
    using k assms(2,3) by simp
  from interleave_keeps [OF il assms(2) this] show ?thesis
    using k assms(3-5) by simp
qed

section \<open>Building the Huffman tree\<close>

lemma read_u32_inside:
  "4 \<le> length s \<Longrightarrow> read_u32 s = Inr (le_nat (take 4 s), drop 4 s)"
  by (simp add: read_u32_def)

lemma add_node_scan_ok:
  "\<forall>n \<in> set tree. n < length nodes \<Longrightarrow>
   \<exists>t. add_node_scan nodes fr index tree = Inr t \<and> set t = insert index (set tree)
       \<and> length t = Suc (length tree)"
proof (induction tree)
  case Nil
  then show ?case by simp
next
  case (Cons n tree)
  then obtain t where "add_node_scan nodes fr index tree = Inr t"
    and "set t = insert index (set tree)" and "length t = Suc (length tree)"
    by auto
  with Cons.prems show ?case
    by auto
qed

lemma add_node_ok:
  "index < length nodes \<Longrightarrow> \<forall>n \<in> set tree. n < length nodes \<Longrightarrow>
   \<exists>t. add_node tree nodes index = Inr t \<and> set t = insert index (set tree)
       \<and> length t = Suc (length tree)"
  using add_node_scan_ok [of tree nodes "freq (nodes ! index)" index]
  by (simp add: add_node_def)

lemma seed_nodes_ok:
  assumes "4 * k \<le> length s" and "i + k \<le> length nodes" and "\<forall>n \<in> set tree. n < length nodes"
  shows "\<exists>nodes' tree'. seed_nodes k i s nodes tree = Inr (drop (4 * k) s, nodes', tree')
     \<and> length nodes' = length nodes \<and> length tree' = length tree + k
     \<and> set tree' = set tree \<union> {i ..< i + k}"
  using assms
proof (induction k arbitrary: i s nodes tree)
  case 0
  then show ?case by simp
next
  case (Suc k)
  let ?f = "le_nat (take 4 s)"
  let ?nodes = "nodes[i := (nodes ! i)\<lparr>freq := ?f\<rparr>]"
  have r: "read_u32 s = Inr (?f, drop 4 s)"
    using Suc.prems(1) by (simp add: read_u32_inside)
  have i: "i < length ?nodes"
    using Suc.prems(2) by simp
  have "\<forall>n \<in> set tree. n < length ?nodes"
    using Suc.prems(3) by simp
  from add_node_ok [OF i this] obtain t where
    t: "add_node tree ?nodes i = Inr t" "set t = insert i (set tree)" "length t = Suc (length tree)"
    by auto
  have "\<exists>nodes' tree'. seed_nodes k (i + 1) (drop 4 s) ?nodes t = Inr (drop (4 * k) (drop 4 s), nodes', tree')
     \<and> length nodes' = length ?nodes \<and> length tree' = length t + k
     \<and> set tree' = set t \<union> {i + 1 ..< i + 1 + k}"
    using Suc.prems t(2) by (intro Suc.IH) auto
  then obtain nodes' tree' where
    s: "seed_nodes k (i + 1) (drop 4 s) ?nodes t = Inr (drop (4 * k) (drop 4 s), nodes', tree')"
    and l: "length nodes' = length nodes" "length tree' = length t + k"
    and st: "set tree' = set t \<union> {i + 1 ..< i + 1 + k}"
    by auto
  have d: "drop (4 * k) (drop 4 s) = drop (4 * Suc k) s"
    by (simp add: add.commute)
  have iv: "{i ..< i + Suc k} = insert i {i + 1 ..< i + 1 + k}"
    by auto
  have st': "set tree' = set tree \<union> {i ..< i + Suc k}"
    unfolding iv st t(2) by blast
  have "\<not> length nodes \<le> i"
    using Suc.prems(2) by simp
  then have "seed_nodes (Suc k) i s nodes tree = seed_nodes k (i + 1) (drop 4 s) ?nodes t"
    by (simp only: seed_nodes.simps r sum.case prod.case if_False Let_def t(1))
  then have "seed_nodes (Suc k) i s nodes tree = Inr (drop (4 * Suc k) s, nodes', tree')"
    by (simp only: s d)
  moreover have "length tree' = length tree + Suc k"
    using l(2) t(3) by simp
  ultimately show ?case
    using l(1) st' by blast
qed

lemma merge_nodes_ok:
  assumes "2 \<le> length tree" and "last_node + length tree \<le> Suc (length nodes)"
    and "\<forall>n \<in> set tree. n < length nodes"
  shows "\<exists>nodes'. merge_nodes nodes tree last_node
      = Inr (nodes', [last_node + length tree - 2], last_node + length tree - 1)
     \<and> length nodes' = length nodes"
  using assms
proof (induction nodes tree last_node rule: merge_nodes.induct)
  case (1 nodes last_node)
  then show ?case by simp
next
  case (2 nodes n last_node)
  then show ?case by simp
next
  case (3 nodes l r rest last_node)
  let ?nodes = "nodes[last_node := (nodes ! last_node)
                 \<lparr>freq := freq (nodes ! l) + freq (nodes ! r), left := l, right := r\<rparr>]"
  have b: "l < length nodes" "r < length nodes" "last_node < length nodes"
    using "3.prems" by simp_all
  have "last_node < length ?nodes" and "\<forall>n \<in> set rest. n < length ?nodes"
    using b "3.prems"(3) by simp_all
  from add_node_ok [OF this] obtain t where
    t: "add_node rest ?nodes last_node = Inr t" "set t = insert last_node (set rest)"
       "length t = Suc (length rest)"
    by auto
  have step: "merge_nodes nodes (l # r # rest) last_node = merge_nodes ?nodes t (last_node + 1)"
    using b t(1) by (simp add: Let_def)
  show ?case
  proof (cases rest)
    case Nil
    with t(3) obtain x where "t = [x]"
      by (cases t) auto
    with t(2) Nil have "t = [last_node]"
      by simp
    then show ?thesis
      using step Nil by simp
  next
    case (Cons a as)
    have "\<exists>nodes'. merge_nodes ?nodes t (last_node + 1)
      = Inr (nodes', [last_node + 1 + length t - 2], last_node + 1 + length t - 1)
     \<and> length nodes' = length ?nodes"
    proof (rule "3.IH" [OF _ refl t(1)])
      show "\<not> (length nodes \<le> l \<or> length nodes \<le> r \<or> length nodes \<le> last_node)"
        using b by simp
      show "2 \<le> length t"
        using t(3) Cons by simp
      show "last_node + 1 + length t \<le> Suc (length ?nodes)"
        using t(3) "3.prems"(2) by simp
      show "\<forall>n \<in> set t. n < length ?nodes"
        using t(2) b "3.prems"(3) by simp
    qed
    then show ?thesis
      using step t(3) by simp
  qed
qed

lemma huffman_tree_built:
  assumes "1032 \<le> length strm"
  shows "\<exists>nodes1 tree nodes2.
     seed_nodes 0x100 0 (drop 8 strm) (replicate 0x200 \<lparr>freq = 0, left = 0, right = 0\<rparr>) []
       = Inr (drop 1032 strm, nodes1, tree)
     \<and> length tree = 256 \<and> set tree = {0 ..< 256}
     \<and> merge_nodes nodes1 tree 0x100 = Inr (nodes2, [0x1FE], 0x1FF)
     \<and> length nodes2 = 0x200
     \<and> create_huffman_tree strm
         = Inr (nodes2, le_nat (take 4 strm), drop 1032 strm)"
proof -
  let ?nodes = "replicate 0x200 \<lparr>freq = 0, left = 0, right = 0\<rparr>"
  let ?s = "drop 8 strm"
  have "\<exists>nodes' tree'. seed_nodes 256 0 ?s ?nodes [] = Inr (drop (4 * 256) ?s, nodes', tree')
     \<and> length nodes' = length ?nodes \<and> length tree' = length ([]::nat list) + 256
     \<and> set tree' = set [] \<union> {0 ..< 0 + 256}"
    using assms by (intro seed_nodes_ok) simp_all
  then obtain nodes1 tree where
    seed: "seed_nodes 256 0 ?s ?nodes [] = Inr (drop 1032 strm, nodes1, tree)"
    and l1: "length nodes1 = 512" and lt: "length tree = 256" and st: "set tree = {0 ..< 256}"
    by auto
  have "\<exists>nodes'. merge_nodes nodes1 tree 256
      = Inr (nodes', [256 + length tree - 2], 256 + length tree - 1)
     \<and> length nodes' = length nodes1"
    using lt l1 st by (intro merge_nodes_ok) simp_all
  then obtain nodes2 where
    merge: "merge_nodes nodes1 tree 256 = Inr (nodes2, [0x1FE], 0x1FF)"
    and l2: "length nodes2 = 512"
    using lt l1 by auto
  have r: "read_u32 strm = Inr (le_nat (take 4 strm), drop 4 strm)"
    using assms by (simp add: read_u32_inside)
  have d: "drop 4 (drop 4 strm) = drop 8 strm"
    by simp
  have "create_huffman_tree strm
         = Inr (nodes2, le_nat (take 4 strm), drop 1032 strm)"
    unfolding create_huffman_tree_def Let_def
    by (simp only: r sum.case prod.case d seed merge)
  with seed lt st merge l2 show ?thesis
    by blast
qed

lemma descends_update:
  assumes "descends nodes r m" and "r < last_node"
    and "\<forall>n. 0x100 \<le> n \<and> n < last_node \<longrightarrow> left (nodes ! n) < n \<and> right (nodes ! n) < n"
  shows "descends (nodes[last_node := x]) r m"
  using assms
proof (induction rule: descends.induct)
  case (here n)
  show ?case by (rule descends.here)
next
  case (go_left n m)
  have k: "nodes[last_node := x] ! n = nodes ! n"
    using go_left.prems(1) by simp
  have "0x100 \<le> n \<and> n < last_node"
    using go_left.hyps(1) go_left.prems(1) by simp
  then have "left (nodes ! n) < n"
    by (rule go_left.prems(2) [rule_format, THEN conjunct1])
  then have "left (nodes ! n) < last_node"
    using go_left.prems(1) by (rule less_trans)
  then have "descends (nodes[last_node := x]) (left (nodes ! n)) m"
    using go_left.prems(2) by (rule go_left.IH)
  then have c: "descends (nodes[last_node := x]) (left (nodes[last_node := x] ! n)) m"
    by (simp only: k)
  have b: "n < length (nodes[last_node := x])"
    using go_left.hyps(2) by simp
  show ?case
    using go_left.hyps(1) b c by (rule descends.go_left)
next
  case (go_right n m)
  have k: "nodes[last_node := x] ! n = nodes ! n"
    using go_right.prems(1) by simp
  have "0x100 \<le> n \<and> n < last_node"
    using go_right.hyps(1) go_right.prems(1) by simp
  then have "right (nodes ! n) < n"
    by (rule go_right.prems(2) [rule_format, THEN conjunct2])
  then have "right (nodes ! n) < last_node"
    using go_right.prems(1) by (rule less_trans)
  then have "descends (nodes[last_node := x]) (right (nodes ! n)) m"
    using go_right.prems(2) by (rule go_right.IH)
  then have c: "descends (nodes[last_node := x]) (right (nodes[last_node := x] ! n)) m"
    by (simp only: k)
  have b: "n < length (nodes[last_node := x])"
    using go_right.hyps(2) by simp
  show ?case
    using go_right.hyps(1) b c by (rule descends.go_right)
qed

lemma merge_nodes_tree:
  assumes "2 \<le> length tree" and "last_node + length tree \<le> Suc (length nodes)"
    and "0x100 \<le> last_node"
    and "\<forall>n. 0x100 \<le> n \<and> n < last_node \<longrightarrow> left (nodes ! n) < n \<and> right (nodes ! n) < n"
    and "\<forall>n. 0x100 \<le> n \<and> n < last_node \<longrightarrow>
           freq (nodes ! n) = freq (nodes ! left (nodes ! n)) + freq (nodes ! right (nodes ! n))"
    and "\<forall>r \<in> set tree. r < last_node"
    and "\<forall>leaf < 0x100. \<exists>r \<in> set tree. descends nodes r leaf"
  shows "\<exists>nodes'. merge_nodes nodes tree last_node
        = Inr (nodes', [last_node + length tree - 2], last_node + length tree - 1)
     \<and> length nodes' = length nodes
     \<and> (\<forall>n. 0x100 \<le> n \<and> n < last_node + length tree - 1 \<longrightarrow>
           left (nodes' ! n) < n \<and> right (nodes' ! n) < n)
     \<and> (\<forall>n. 0x100 \<le> n \<and> n < last_node + length tree - 1 \<longrightarrow>
           freq (nodes' ! n) = freq (nodes' ! left (nodes' ! n)) + freq (nodes' ! right (nodes' ! n)))
     \<and> (\<forall>leaf < 0x100. descends nodes' (last_node + length tree - 2) leaf)
     \<and> (\<forall>n. n < last_node \<or> last_node + length tree - 1 \<le> n \<longrightarrow> nodes' ! n = nodes ! n)"
  using assms
proof (induction nodes tree last_node rule: merge_nodes.induct)
  case (1 nodes last_node)
  then show ?case by simp
next
  case (2 nodes n last_node)
  then show ?case by simp
next
  case (3 nodes l r rest last_node)
  let ?x = "(nodes ! last_node)\<lparr>freq := freq (nodes ! l) + freq (nodes ! r), left := l, right := r\<rparr>"
  let ?nodes = "nodes[last_node := ?x]"
  note kids = "3.prems"(4) and sums = "3.prems"(5) and roots = "3.prems"(6) and cover = "3.prems"(7)
  have ll: "last_node < length nodes"
    using "3.prems"(2) by simp
  have lr: "l < last_node" "r < last_node" and rr: "\<forall>n \<in> set rest. n < last_node"
    using roots by simp_all
  have b: "l < length nodes" "r < length nodes"
    using lr ll by simp_all
  have big: "0xFF < last_node"
    using "3.prems"(3) by simp
  have at: "?nodes ! last_node = ?x"
    using ll by simp
  have keep: "?nodes ! n = nodes ! n" if "n \<noteq> last_node" for n
    using that by simp
  have len: "length ?nodes = length nodes"
    by simp
  \<comment> \<open>the invariants after the merge\<close>
  have kids': "\<forall>n. 0x100 \<le> n \<and> n < last_node + 1 \<longrightarrow> left (?nodes ! n) < n \<and> right (?nodes ! n) < n"
  proof (intro allI impI)
    fix n assume n: "0x100 \<le> n \<and> n < last_node + 1"
    show "left (?nodes ! n) < n \<and> right (?nodes ! n) < n"
    proof (cases "n = last_node")
      case True
      then show ?thesis
        using lr by (simp only: at) simp
    next
      case False
      then have "0x100 \<le> n \<and> n < last_node"
        using n by simp
      then have "left (nodes ! n) < n \<and> right (nodes ! n) < n"
        by (rule kids [rule_format])
      then show ?thesis
        by (simp only: keep [OF False])
    qed
  qed
  have sums': "\<forall>n. 0x100 \<le> n \<and> n < last_node + 1 \<longrightarrow>
        freq (?nodes ! n) = freq (?nodes ! left (?nodes ! n)) + freq (?nodes ! right (?nodes ! n))"
  proof (intro allI impI)
    fix n assume n: "0x100 \<le> n \<and> n < last_node + 1"
    show "freq (?nodes ! n) = freq (?nodes ! left (?nodes ! n)) + freq (?nodes ! right (?nodes ! n))"
    proof (cases "n = last_node")
      case True
      have "l \<noteq> last_node" "r \<noteq> last_node"
        using lr by simp_all
      then have "?nodes ! l = nodes ! l" "?nodes ! r = nodes ! r"
        by simp_all
      moreover have "left ?x = l" "right ?x = r" "freq ?x = freq (nodes ! l) + freq (nodes ! r)"
        by simp_all
      ultimately show ?thesis
        by (simp only: True at)
    next
      case False
      then have in_range: "0x100 \<le> n \<and> n < last_node"
        using n by simp
      then have k: "left (nodes ! n) < n \<and> right (nodes ! n) < n"
        by (rule kids [rule_format])
      then have "left (nodes ! n) \<noteq> last_node" "right (nodes ! n) \<noteq> last_node"
        using in_range by simp_all
      then have "?nodes ! left (nodes ! n) = nodes ! left (nodes ! n)"
        "?nodes ! right (nodes ! n) = nodes ! right (nodes ! n)"
        by simp_all
      moreover have "freq (nodes ! n) = freq (nodes ! left (nodes ! n)) + freq (nodes ! right (nodes ! n))"
        using in_range by (rule sums [rule_format])
      ultimately show ?thesis
        by (simp only: keep [OF False])
    qed
  qed
  have under_l: "descends ?nodes last_node m" if "descends ?nodes l m" for m
  proof -
    have "descends ?nodes (left (?nodes ! last_node)) m"
      using that by (simp only: at) simp
    with big show ?thesis
      using ll by (intro descends.go_left [of last_node ?nodes m]) simp_all
  qed
  have under_r: "descends ?nodes last_node m" if "descends ?nodes r m" for m
  proof -
    have "descends ?nodes (right (?nodes ! last_node)) m"
      using that by (simp only: at) simp
    with big show ?thesis
      using ll by (intro descends.go_right [of last_node ?nodes m]) simp_all
  qed
  have cover': "descends ?nodes last_node leaf \<or> (\<exists>r0 \<in> set rest. descends ?nodes r0 leaf)"
    if "leaf < 0x100" for leaf
  proof -
    from cover that obtain r0 where r0: "r0 \<in> set (l # r # rest)" and d: "descends nodes r0 leaf"
      by blast
    have "r0 < last_node"
      using roots r0 by blast
    with d have d': "descends ?nodes r0 leaf"
      using kids by (rule descends_update)
    from r0 consider "r0 = l" | "r0 = r" | "r0 \<in> set rest"
      by auto
    then show ?thesis
    proof cases
      case 1
      then show ?thesis using d' under_l by blast
    next
      case 2
      then show ?thesis using d' under_r by blast
    next
      case 3
      then show ?thesis using d' by blast
    qed
  qed
  have "last_node < length ?nodes" and "\<forall>n \<in> set rest. n < length ?nodes"
    using ll rr by auto
  from add_node_ok [OF this] obtain t where
    t: "add_node rest ?nodes last_node = Inr t" "set t = insert last_node (set rest)"
       "length t = Suc (length rest)"
    by auto
  have step: "merge_nodes nodes (l # r # rest) last_node = merge_nodes ?nodes t (last_node + 1)"
    using b ll t(1) by (simp add: Let_def)
  show ?case
  proof (cases rest)
    case Nil
    with t(3) obtain y where "t = [y]"
      by (cases t) auto
    with t(2) Nil have "t = [last_node]"
      by simp
    then have res: "merge_nodes nodes (l # r # rest) last_node = Inr (?nodes, [last_node], last_node + 1)"
      using step by simp
    have c: "\<forall>leaf < 0x100. descends ?nodes last_node leaf"
      using cover' Nil by simp
    have u: "\<forall>n. n < last_node \<or> last_node + 1 \<le> n \<longrightarrow> ?nodes ! n = nodes ! n"
      by simp
    have e: "last_node + length (l # r # rest) - 2 = last_node"
      "last_node + length (l # r # rest) - 1 = last_node + 1"
      using Nil by simp_all
    show ?thesis
      unfolding e using res len kids' sums' c u by blast
  next
    case (Cons a as)
    have rt: "\<forall>r0 \<in> set t. r0 < last_node + 1"
      using t(2) rr by auto
    have cv: "\<forall>leaf < 0x100. \<exists>r0 \<in> set t. descends ?nodes r0 leaf"
      using cover' t(2) by blast
    have "\<exists>nodes'. merge_nodes ?nodes t (last_node + 1)
        = Inr (nodes', [last_node + 1 + length t - 2], last_node + 1 + length t - 1)
     \<and> length nodes' = length ?nodes
     \<and> (\<forall>n. 0x100 \<le> n \<and> n < last_node + 1 + length t - 1 \<longrightarrow>
           left (nodes' ! n) < n \<and> right (nodes' ! n) < n)
     \<and> (\<forall>n. 0x100 \<le> n \<and> n < last_node + 1 + length t - 1 \<longrightarrow>
           freq (nodes' ! n) = freq (nodes' ! left (nodes' ! n)) + freq (nodes' ! right (nodes' ! n)))
     \<and> (\<forall>leaf < 0x100. descends nodes' (last_node + 1 + length t - 2) leaf)
     \<and> (\<forall>n. n < last_node + 1 \<or> last_node + 1 + length t - 1 \<le> n \<longrightarrow> nodes' ! n = ?nodes ! n)"
    proof (rule "3.IH" [OF _ refl t(1)])
      show "\<not> (length nodes \<le> l \<or> length nodes \<le> r \<or> length nodes \<le> last_node)"
        using b ll by simp
      show "2 \<le> length t"
        using t(3) Cons by simp
      show "last_node + 1 + length t \<le> Suc (length ?nodes)"
        using t(3) "3.prems"(2) by simp
      show "0x100 \<le> last_node + 1"
        using "3.prems"(3) by simp
      show "\<forall>n. 0x100 \<le> n \<and> n < last_node + 1 \<longrightarrow> left (?nodes ! n) < n \<and> right (?nodes ! n) < n"
        by (rule kids')
      show "\<forall>n. 0x100 \<le> n \<and> n < last_node + 1 \<longrightarrow>
        freq (?nodes ! n) = freq (?nodes ! left (?nodes ! n)) + freq (?nodes ! right (?nodes ! n))"
        by (rule sums')
      show "\<forall>r0 \<in> set t. r0 < last_node + 1"
        by (rule rt)
      show "\<forall>leaf < 0x100. \<exists>r0 \<in> set t. descends ?nodes r0 leaf"
        by (rule cv)
    qed
    then obtain nodes' where
      m: "merge_nodes ?nodes t (last_node + 1)
        = Inr (nodes', [last_node + 1 + length t - 2], last_node + 1 + length t - 1)"
      and l': "length nodes' = length ?nodes"
      and k': "\<forall>n. 0x100 \<le> n \<and> n < last_node + 1 + length t - 1 \<longrightarrow>
           left (nodes' ! n) < n \<and> right (nodes' ! n) < n"
      and s': "\<forall>n. 0x100 \<le> n \<and> n < last_node + 1 + length t - 1 \<longrightarrow>
           freq (nodes' ! n) = freq (nodes' ! left (nodes' ! n)) + freq (nodes' ! right (nodes' ! n))"
      and c': "\<forall>leaf < 0x100. descends nodes' (last_node + 1 + length t - 2) leaf"
      and u': "\<forall>n. n < last_node + 1 \<or> last_node + 1 + length t - 1 \<le> n \<longrightarrow> nodes' ! n = ?nodes ! n"
      by blast
    have e: "last_node + 1 + length t - 2 = last_node + length (l # r # rest) - 2"
      "last_node + 1 + length t - 1 = last_node + length (l # r # rest) - 1"
      using t(3) by simp_all
    have u: "\<forall>n. n < last_node \<or> last_node + length (l # r # rest) - 1 \<le> n \<longrightarrow> nodes' ! n = nodes ! n"
    proof (intro allI impI)
      fix n assume n: "n < last_node \<or> last_node + length (l # r # rest) - 1 \<le> n"
      then have "n < last_node + 1 \<or> last_node + 1 + length t - 1 \<le> n"
        unfolding e by auto
      then have "nodes' ! n = ?nodes ! n"
        by (rule u' [rule_format])
      moreover have "n \<noteq> last_node"
        using n by auto
      ultimately show "nodes' ! n = nodes ! n"
        by simp
    qed
    have "merge_nodes nodes (l # r # rest) last_node
        = Inr (nodes', [last_node + length (l # r # rest) - 2], last_node + length (l # r # rest) - 1)"
      using step m unfolding e by simp
    moreover have "length nodes' = length nodes"
      using l' by simp
    ultimately show ?thesis
      using k' s' c' u unfolding e by blast
  qed
qed

lemma seed_nodes_freq:
  assumes "4 * k \<le> length s" and "i + k \<le> length nodes" and "\<forall>n \<in> set tree. n < length nodes"
  shows "\<exists>nodes' tree'. seed_nodes k i s nodes tree = Inr (drop (4 * k) s, nodes', tree')
     \<and> (\<forall>j < k. freq (nodes' ! (i + j)) = le_nat (take 4 (drop (4 * j) s)))
     \<and> (\<forall>n. n < i \<or> i + k \<le> n \<longrightarrow> nodes' ! n = nodes ! n)"
  using assms
proof (induction k arbitrary: i s nodes tree)
  case 0
  then show ?case by simp
next
  case (Suc k)
  let ?f = "le_nat (take 4 s)"
  let ?nodes = "nodes[i := (nodes ! i)\<lparr>freq := ?f\<rparr>]"
  have il: "i < length nodes"
    using Suc.prems(2) by simp
  have r: "read_u32 s = Inr (?f, drop 4 s)"
    using Suc.prems(1) by (simp add: read_u32_inside)
  have "i < length ?nodes" and "\<forall>n \<in> set tree. n < length ?nodes"
    using il Suc.prems(3) by auto
  from add_node_ok [OF this] obtain t where
    t: "add_node tree ?nodes i = Inr t" "set t = insert i (set tree)"
    by auto
  have step: "seed_nodes (Suc k) i s nodes tree = seed_nodes k (i + 1) (drop 4 s) ?nodes t"
    using il t(1) by (simp add: r Let_def)
  have "\<exists>nodes' tree'. seed_nodes k (i + 1) (drop 4 s) ?nodes t = Inr (drop (4 * k) (drop 4 s), nodes', tree')
     \<and> (\<forall>j < k. freq (nodes' ! (i + 1 + j)) = le_nat (take 4 (drop (4 * j) (drop 4 s))))
     \<and> (\<forall>n. n < i + 1 \<or> i + 1 + k \<le> n \<longrightarrow> nodes' ! n = ?nodes ! n)"
  proof (rule Suc.IH)
    show "4 * k \<le> length (drop 4 s)"
      using Suc.prems(1) by simp
    show "i + 1 + k \<le> length ?nodes"
      using Suc.prems(2) by simp
    show "\<forall>n \<in> set t. n < length ?nodes"
      using t(2) il Suc.prems(3) by auto
  qed
  then obtain nodes' tree' where
    sd: "seed_nodes k (i + 1) (drop 4 s) ?nodes t = Inr (drop (4 * k) (drop 4 s), nodes', tree')"
    and fr: "\<forall>j < k. freq (nodes' ! (i + 1 + j)) = le_nat (take 4 (drop (4 * j) (drop 4 s)))"
    and un: "\<forall>n. n < i + 1 \<or> i + 1 + k \<le> n \<longrightarrow> nodes' ! n = ?nodes ! n"
    by blast
  have d: "drop (4 * j) (drop 4 s) = drop (4 * Suc j) s" for j
    by (simp add: add.commute)
  have res: "seed_nodes (Suc k) i s nodes tree = Inr (drop (4 * Suc k) s, nodes', tree')"
    using step sd by (simp only: d)
  have fr': "\<forall>j < Suc k. freq (nodes' ! (i + j)) = le_nat (take 4 (drop (4 * j) s))"
  proof (intro allI impI)
    fix j assume j: "j < Suc k"
    show "freq (nodes' ! (i + j)) = le_nat (take 4 (drop (4 * j) s))"
    proof (cases j)
      case 0
      have "nodes' ! i = ?nodes ! i"
        using un by simp
      then show ?thesis
        using 0 il by simp
    next
      case (Suc j')
      then have "j' < k"
        using j by simp
      then have "freq (nodes' ! (i + 1 + j')) = le_nat (take 4 (drop (4 * j') (drop 4 s)))"
        by (rule fr [rule_format])
      then show ?thesis
        using Suc by (simp only: d) simp
    qed
  qed
  have un': "\<forall>n. n < i \<or> i + Suc k \<le> n \<longrightarrow> nodes' ! n = nodes ! n"
  proof (intro allI impI)
    fix n assume n: "n < i \<or> i + Suc k \<le> n"
    then have "n < i + 1 \<or> i + 1 + k \<le> n"
      by auto
    then have "nodes' ! n = ?nodes ! n"
      by (rule un [rule_format])
    moreover have "n \<noteq> i"
      using n by auto
    ultimately show "nodes' ! n = nodes ! n"
      by simp
  qed
  from res fr' un' show ?case
    by blast
qed

lemma huffman_tree_shape:
  assumes "1032 \<le> length strm"
  shows "\<exists>nodes1 tree nodes2.
     seed_nodes 0x100 0 (drop 8 strm) (replicate 0x200 \<lparr>freq = 0, left = 0, right = 0\<rparr>) []
       = Inr (drop 1032 strm, nodes1, tree)
     \<and> length tree = 256 \<and> set tree = {0 ..< 256}
     \<and> merge_nodes nodes1 tree 0x100 = Inr (nodes2, [0x1FE], 0x1FF)
     \<and> length nodes2 = 0x200
     \<and> create_huffman_tree strm = Inr (nodes2, le_nat (take 4 strm), drop 1032 strm)
     \<and> (\<forall>i < 0x100. freq (nodes2 ! i) = le_nat (take 4 (drop (8 + 4 * i) strm)))
     \<and> (\<forall>n. 0x100 \<le> n \<and> n \<le> 0x1FE \<longrightarrow>
           left (nodes2 ! n) < n \<and> right (nodes2 ! n) < n
           \<and> freq (nodes2 ! n) = freq (nodes2 ! left (nodes2 ! n)) + freq (nodes2 ! right (nodes2 ! n)))
     \<and> (\<forall>leaf < 0x100. descends nodes2 0x1FE leaf)
     \<and> nodes2 ! 0x1FF = \<lparr>freq = 0, left = 0, right = 0\<rparr>"
proof -
  let ?nodes = "replicate 0x200 \<lparr>freq = 0, left = 0, right = 0\<rparr>"
  let ?s = "drop 8 strm"
  have "\<exists>nodes' tree'. seed_nodes 256 0 ?s ?nodes [] = Inr (drop (4 * 256) ?s, nodes', tree')
     \<and> length nodes' = length ?nodes \<and> length tree' = length ([]::nat list) + 256
     \<and> set tree' = set [] \<union> {0 ..< 0 + 256}"
    using assms by (intro seed_nodes_ok) simp_all
  then obtain nodes1 tree where
    seed: "seed_nodes 256 0 ?s ?nodes [] = Inr (drop 1032 strm, nodes1, tree)"
    and l1: "length nodes1 = 512" and lt: "length tree = 256" and st: "set tree = {0 ..< 256}"
    by auto
  have "\<exists>nodes' tree'. seed_nodes 256 0 ?s ?nodes [] = Inr (drop (4 * 256) ?s, nodes', tree')
     \<and> (\<forall>j < 256. freq (nodes' ! (0 + j)) = le_nat (take 4 (drop (4 * j) ?s)))
     \<and> (\<forall>n. n < 0 \<or> 0 + 256 \<le> n \<longrightarrow> nodes' ! n = ?nodes ! n)"
    using assms by (intro seed_nodes_freq) simp_all
  with seed have fr1: "\<forall>j < 256. freq (nodes1 ! j) = le_nat (take 4 (drop (4 * j) ?s))"
    and un1: "\<forall>n. 256 \<le> n \<longrightarrow> nodes1 ! n = ?nodes ! n"
    by auto
  have cover: "\<forall>leaf < 0x100. \<exists>r \<in> set tree. descends nodes1 r leaf"
  proof (intro allI impI)
    fix leaf :: nat assume "leaf < 0x100"
    then have "leaf \<in> set tree"
      using st by simp
    then show "\<exists>r \<in> set tree. descends nodes1 r leaf"
      using descends.here by blast
  qed
  have "\<exists>nodes'. merge_nodes nodes1 tree 0x100
        = Inr (nodes', [0x100 + length tree - 2], 0x100 + length tree - 1)
     \<and> length nodes' = length nodes1
     \<and> (\<forall>n. 0x100 \<le> n \<and> n < 0x100 + length tree - 1 \<longrightarrow>
           left (nodes' ! n) < n \<and> right (nodes' ! n) < n)
     \<and> (\<forall>n. 0x100 \<le> n \<and> n < 0x100 + length tree - 1 \<longrightarrow>
           freq (nodes' ! n) = freq (nodes' ! left (nodes' ! n)) + freq (nodes' ! right (nodes' ! n)))
     \<and> (\<forall>leaf < 0x100. descends nodes' (0x100 + length tree - 2) leaf)
     \<and> (\<forall>n. n < 0x100 \<or> 0x100 + length tree - 1 \<le> n \<longrightarrow> nodes' ! n = nodes1 ! n)"
  proof (rule merge_nodes_tree)
    show "2 \<le> length tree" using lt by simp
    show "0x100 + length tree \<le> Suc (length nodes1)" using lt l1 by simp
    show "(0x100::nat) \<le> 0x100" by simp
    show "\<forall>n. 0x100 \<le> n \<and> n < 0x100 \<longrightarrow> left (nodes1 ! n) < n \<and> right (nodes1 ! n) < n"
      by simp
    show "\<forall>n. 0x100 \<le> n \<and> n < 0x100 \<longrightarrow>
           freq (nodes1 ! n) = freq (nodes1 ! left (nodes1 ! n)) + freq (nodes1 ! right (nodes1 ! n))"
      by simp
    show "\<forall>r \<in> set tree. r < 0x100" using st by simp
    show "\<forall>leaf < 0x100. \<exists>r \<in> set tree. descends nodes1 r leaf" by (rule cover)
  qed
  then obtain nodes2 where
    merge: "merge_nodes nodes1 tree 0x100 = Inr (nodes2, [0x1FE], 0x1FF)"
    and l2: "length nodes2 = 512"
    and kids: "\<forall>n. 0x100 \<le> n \<and> n < 0x1FF \<longrightarrow> left (nodes2 ! n) < n \<and> right (nodes2 ! n) < n"
    and sums: "\<forall>n. 0x100 \<le> n \<and> n < 0x1FF \<longrightarrow>
           freq (nodes2 ! n) = freq (nodes2 ! left (nodes2 ! n)) + freq (nodes2 ! right (nodes2 ! n))"
    and below: "\<forall>leaf < 0x100. descends nodes2 0x1FE leaf"
    and un2: "\<forall>n. n < 0x100 \<or> 0x1FF \<le> n \<longrightarrow> nodes2 ! n = nodes1 ! n"
    unfolding lt using l1 by auto
  have r: "read_u32 strm = Inr (le_nat (take 4 strm), drop 4 strm)"
    using assms by (simp add: read_u32_inside)
  have d: "drop 4 (drop 4 strm) = drop 8 strm"
    by simp
  have built: "create_huffman_tree strm = Inr (nodes2, le_nat (take 4 strm), drop 1032 strm)"
    unfolding create_huffman_tree_def Let_def
    by (simp only: r sum.case prod.case d seed merge)
  have leaves: "\<forall>i < 0x100. freq (nodes2 ! i) = le_nat (take 4 (drop (8 + 4 * i) strm))"
  proof (intro allI impI)
    fix i :: nat assume i: "i < 0x100"
    then have "nodes2 ! i = nodes1 ! i"
      using un2 by blast
    moreover have "freq (nodes1 ! i) = le_nat (take 4 (drop (4 * i) ?s))"
      using fr1 i by simp
    moreover have "drop (4 * i) ?s = drop (8 + 4 * i) strm"
      by (simp add: add.commute)
    ultimately show "freq (nodes2 ! i) = le_nat (take 4 (drop (8 + 4 * i) strm))"
      by simp
  qed
  have inner: "\<forall>n. 0x100 \<le> n \<and> n \<le> 0x1FE \<longrightarrow>
           left (nodes2 ! n) < n \<and> right (nodes2 ! n) < n
           \<and> freq (nodes2 ! n) = freq (nodes2 ! left (nodes2 ! n)) + freq (nodes2 ! right (nodes2 ! n))"
  proof (intro allI impI)
    fix n :: nat assume "0x100 \<le> n \<and> n \<le> 0x1FE"
    then have n: "0x100 \<le> n \<and> n < 0x1FF"
      by simp
    from kids [rule_format, OF n] sums [rule_format, OF n]
    show "left (nodes2 ! n) < n \<and> right (nodes2 ! n) < n
           \<and> freq (nodes2 ! n) = freq (nodes2 ! left (nodes2 ! n)) + freq (nodes2 ! right (nodes2 ! n))"
      by simp
  qed
  have "nodes2 ! 0x1FF = nodes1 ! 0x1FF"
    using un2 by simp
  also have "\<dots> = ?nodes ! 0x1FF"
    using un1 by simp
  also have "\<dots> = \<lparr>freq = 0, left = 0, right = 0\<rparr>"
    by simp
  finally have spare: "nodes2 ! 0x1FF = \<lparr>freq = 0, left = 0, right = 0\<rparr>" .
  from seed lt st merge l2 built leaves inner below spare show ?thesis
    by blast
qed

text \<open>
  C9. On every stream that holds the two size fields and the 256 frequencies (1032 bytes),
  seeding puts all 256 leaf indices into the priority list, whatever the frequencies are;
  the merge loop then creates the nodes 0x100 to 0x1FE, one per merge and 255 in all, and
  leaves the list with the single node 0x1FE, the index at which \<open>unpack_huffman\<close> starts
  every walk. In the table that is returned, every leaf carries its frequency from the
  stream; every node from 0x100 to 0x1FE has two children of smaller index and the sum of
  their frequencies; every leaf can be reached from 0x1FE by left and right steps; and
  the slot 0x1FF after it is as it was allocated.
\<close>

theorem huffman_root_index:
  assumes "1032 \<le> length strm"
  shows "\<exists>nodes1 tree nodes2.
     seed_nodes 0x100 0 (drop 8 strm) (replicate 0x200 \<lparr>freq = 0, left = 0, right = 0\<rparr>) []
       = Inr (drop 1032 strm, nodes1, tree)
     \<and> length tree = 256 \<and> set tree = {0 ..< 256}
     \<and> merge_nodes nodes1 tree 0x100 = Inr (nodes2, [0x1FE], 0x1FF)
     \<and> length nodes2 = 0x200
     \<and> create_huffman_tree strm = Inr (nodes2, le_nat (take 4 strm), drop 1032 strm)
     \<and> (\<forall>i < 0x100. freq (nodes2 ! i) = le_nat (take 4 (drop (8 + 4 * i) strm)))
     \<and> (\<forall>n. 0x100 \<le> n \<and> n \<le> 0x1FE \<longrightarrow>
           left (nodes2 ! n) < n \<and> right (nodes2 ! n) < n
           \<and> freq (nodes2 ! n) = freq (nodes2 ! left (nodes2 ! n)) + freq (nodes2 ! right (nodes2 ! n)))
     \<and> (\<forall>leaf < 0x100. descends nodes2 0x1FE leaf)
     \<and> nodes2 ! 0x1FF = \<lparr>freq = 0, left = 0, right = 0\<rparr>"
  using assms by (rule huffman_tree_shape)

theorem huffman_root_index_witness:
  "\<exists>nodes1 tree nodes2.
     seed_nodes 0x100 0 (drop 8 (replicate 1040 0x01)) (replicate 0x200 \<lparr>freq = 0, left = 0, right = 0\<rparr>) []
       = Inr (drop 1032 (replicate 1040 0x01), nodes1, tree)
     \<and> length tree = 256 \<and> set tree = {0 ..< 256}
     \<and> merge_nodes nodes1 tree 0x100 = Inr (nodes2, [0x1FE], 0x1FF)
     \<and> length nodes2 = 0x200
     \<and> create_huffman_tree (replicate 1040 0x01) = Inr (nodes2, le_nat (take 4 (replicate 1040 0x01)), drop 1032 (replicate 1040 0x01))
     \<and> (\<forall>i < 0x100. freq (nodes2 ! i) = le_nat (take 4 (drop (8 + 4 * i) (replicate 1040 0x01))))
     \<and> (\<forall>n. 0x100 \<le> n \<and> n \<le> 0x1FE \<longrightarrow>
           left (nodes2 ! n) < n \<and> right (nodes2 ! n) < n
           \<and> freq (nodes2 ! n) = freq (nodes2 ! left (nodes2 ! n)) + freq (nodes2 ! right (nodes2 ! n)))
     \<and> (\<forall>leaf < 0x100. descends nodes2 0x1FE leaf)
     \<and> nodes2 ! 0x1FF = \<lparr>freq = 0, left = 0, right = 0\<rparr>"
  by (rule huffman_root_index) simp

section \<open>Decoding with a single symbol\<close>

lemma get_next_bit_left:
  assumes "bit_position bits \<le> 8" and "get_next_bit bits = Inr (b, bits')"
  shows "Suc (bits_left bits') = bits_left bits \<and> bit_position bits' \<le> 8"
proof (cases "bit_position bits = 8")
  case True
  with assms(2) obtain x s where "stream bits = x # s"
    and "bits' = \<lparr>stream = s, current_byte = drop_bit 1 (unat x), bit_position = 0 + 1\<rparr>"
    by (auto simp: get_next_bit_def split: list.splits)
  with True show ?thesis
    by (simp add: bits_left_def)
next
  case False
  with assms(2) have "bits' = bits\<lparr>current_byte := drop_bit 1 (current_byte bits),
                  bit_position := bit_position bits + 1\<rparr>"
    by (simp add: get_next_bit_def)
  with False assms(1) show ?thesis
    by (simp add: bits_left_def)
qed

lemma walk_total:
  assumes "bit_position bits \<le> 8"
  shows "\<exists>r. walk tree bits node = Some r
     \<and> (\<forall>n bits'. r = Inr (n, bits') \<longrightarrow>
           bit_position bits' \<le> 8 \<and> n \<le> 0xFF \<and> bits_left bits' \<le> bits_left bits
           \<and> (0xFF < node \<longrightarrow> bits_left bits' < bits_left bits))"
  using assms
proof (induction "bits_left bits" arbitrary: bits node rule: less_induct)
  case less
  show ?case
  proof (cases "node > 0xFF")
    case False
    then show ?thesis
      using less.prems by (subst walk.simps) simp
  next
    case True
    note big = this
    show ?thesis
    proof (cases "get_next_bit bits")
      case (Inl x)
      then show ?thesis
        using big by (subst walk.simps) simp
    next
      case (Inr p)
      obtain b bits1 where p: "p = (b, bits1)"
        by (cases p)
      from get_next_bit_left [OF less.prems Inr [unfolded p]] have
        l: "Suc (bits_left bits1) = bits_left bits" and q: "bit_position bits1 \<le> 8"
        by simp_all
      show ?thesis
      proof (cases "node \<ge> length tree")
        case True
        then show ?thesis
          using big Inr p by (subst walk.simps) simp
      next
        case False
        let ?next = "if b \<noteq> 0 then right (tree ! node) else left (tree ! node)"
        have w: "walk tree bits node = walk tree bits1 ?next"
          using big Inr p False by (subst walk.simps) simp
        have "bits_left bits1 < bits_left bits"
          using l by simp
        from less.hyps [OF this q, of ?next] obtain r where
          r: "walk tree bits1 ?next = Some r"
          and f: "\<forall>n bits'. r = Inr (n, bits') \<longrightarrow>
           bit_position bits' \<le> 8 \<and> n \<le> 0xFF \<and> bits_left bits' \<le> bits_left bits1"
          by blast
        have "\<forall>n bits'. r = Inr (n, bits') \<longrightarrow>
           bit_position bits' \<le> 8 \<and> n \<le> 0xFF \<and> bits_left bits' \<le> bits_left bits
           \<and> (0xFF < node \<longrightarrow> bits_left bits' < bits_left bits)"
          using f l by fastforce
        with w r show ?thesis
          by simp
      qed
    qed
  qed
qed

lemma decode_bytes_total:
  assumes "bit_position bits \<le> 8" and "dst + k \<le> length unpacked"
  shows "\<exists>r. decode_bytes k tree bits dst unpacked = Some r
     \<and> (\<forall>out bits'. r = Inr (out, bits') \<longrightarrow>
           length out = length unpacked \<and> bits_left bits' + k \<le> bits_left bits)"
  using assms
proof (induction k arbitrary: bits dst unpacked)
  case 0
  then show ?case by simp
next
  case (Suc k)
  from walk_total [OF Suc.prems(1), of tree "0x1FE"] obtain r where
    r: "walk tree bits 0x1FE = Some r"
    and f: "\<forall>n bits'. r = Inr (n, bits') \<longrightarrow>
           bit_position bits' \<le> 8 \<and> bits_left bits' < bits_left bits"
    by auto
  show ?case
  proof (cases r)
    case (Inl x)
    with r show ?thesis by simp
  next
    case (Inr p)
    obtain node bits1 where p: "p = (node, bits1)"
      by (cases p)
    from f Inr p have q: "bit_position bits1 \<le> 8" and lt: "bits_left bits1 < bits_left bits"
      by simp_all
    have s: "py_set unpacked (int dst) (of_nat node) = Inr (unpacked[dst := of_nat node])"
      using Suc.prems(2) by (simp add: py_set_inside)
    have "dst + 1 + k \<le> length (unpacked[dst := of_nat node])"
      using Suc.prems(2) by simp
    from Suc.IH [OF q this] obtain r' where
      r': "decode_bytes k tree bits1 (dst + 1) (unpacked[dst := of_nat node]) = Some r'"
      and f': "\<forall>out bits'. r' = Inr (out, bits') \<longrightarrow>
           length out = length unpacked \<and> bits_left bits' + k \<le> bits_left bits1"
      by auto
    have "decode_bytes (Suc k) tree bits dst unpacked = Some r'"
      using r Inr p s r' by simp
    moreover have "\<forall>out bits'. r' = Inr (out, bits') \<longrightarrow>
           length out = length unpacked \<and> bits_left bits' + Suc k \<le> bits_left bits"
      using f' lt by fastforce
    ultimately show ?thesis by blast
  qed
qed

lemma decode_bytes_starved:
  "decode_bytes (Suc k) tree \<lparr>stream = [], current_byte = c, bit_position = 8\<rparr> dst unpacked
     = Some (Inl IndexError)"
proof -
  have "walk tree \<lparr>stream = [], current_byte = c, bit_position = 8\<rparr> 0x1FE = Some (Inl IndexError)"
    by (subst walk.simps) (simp add: get_next_bit_def)
  then show ?thesis by simp
qed

lemma unpack_huffman_tree:
  assumes "1032 \<le> length strm"
  shows "\<exists>tree. create_huffman_tree strm = Inr (tree, le_nat (take 4 strm), drop 1032 strm)
     \<and> unpack_huffman strm =
        (case decode_bytes (le_nat (take 4 strm)) tree
                \<lparr>stream = drop 1032 strm, current_byte = 0, bit_position = 8\<rparr> 0
                (replicate (le_nat (take 4 strm)) 0) of None \<Rightarrow> None
         | Some (Inl x) \<Rightarrow> Some (Inl x)
         | Some (Inr (unpacked, bits)) \<Rightarrow> Some (Inr (unpacked, le_nat (take 4 strm), bits)))"
proof -
  from huffman_tree_built [OF assms] obtain tree where
    "create_huffman_tree strm = Inr (tree, le_nat (take 4 strm), drop 1032 strm)"
    by blast
  then show ?thesis
    by (simp add: unpack_huffman_def)
qed

lemma add_node_scan_skip:
  "\<forall>n \<in> set xs. n < length nodes \<and> \<not> freq (nodes ! n) > fr \<Longrightarrow>
   add_node_scan nodes fr index (xs @ ys)
     = (case add_node_scan nodes fr index ys of Inl x \<Rightarrow> Inl x | Inr t \<Rightarrow> Inr (xs @ t))"
  by (induction xs) (auto split: sum.splits)

lemma add_node_last:
  assumes "index < length nodes" and "\<forall>n \<in> set xs. n < length nodes \<and> freq (nodes ! n) \<le> freq (nodes ! index)"
  shows "add_node xs nodes index = Inr (xs @ [index])"
proof -
  have "\<forall>n \<in> set xs. n < length nodes \<and> \<not> freq (nodes ! n) > freq (nodes ! index)"
    using assms(2) by (simp add: not_less)
  from add_node_scan_skip [OF this, of index "[]"] show ?thesis
    using assms(1) by (simp add: add_node_def)
qed

lemma add_node_before:
  assumes "index < length nodes" and "v < length nodes"
    and "\<forall>n \<in> set xs. n < length nodes \<and> freq (nodes ! n) \<le> freq (nodes ! index)"
    and "freq (nodes ! index) < freq (nodes ! v)"
  shows "add_node (xs @ [v]) nodes index = Inr (xs @ [index, v])"
proof -
  have "\<forall>n \<in> set xs. n < length nodes \<and> \<not> freq (nodes ! n) > freq (nodes ! index)"
    using assms(3) by (simp add: not_less)
  from add_node_scan_skip [OF this, of index "[v]"] show ?thesis
    using assms(1,2,4) by (simp add: add_node_def)
qed

lemma seed_single:
  assumes "4 * k \<le> length s" and "i + k \<le> length nodes" and "v < length nodes"
    and "\<forall>j < k. (le_nat (take 4 (drop (4 * j) s)) = 0) = (i + j \<noteq> v)"
    and "\<forall>n \<in> set zs. n < i \<and> freq (nodes ! n) = 0"
    and "v < i \<longrightarrow> 0 < freq (nodes ! v)"
  shows "\<exists>nodes' zs'. seed_nodes k i s nodes (zs @ (if v < i then [v] else []))
       = Inr (drop (4 * k) s, nodes', zs' @ (if v < i + k then [v] else []))
     \<and> length nodes' = length nodes
     \<and> (\<forall>n \<in> set zs'. n < i + k \<and> freq (nodes' ! n) = 0)
     \<and> (v < i + k \<longrightarrow> 0 < freq (nodes' ! v))"
  using assms
proof (induction k arbitrary: i s nodes zs)
  case 0
  then show ?case by auto
next
  case (Suc k)
  let ?f = "le_nat (take 4 s)"
  let ?nodes = "nodes[i := (nodes ! i)\<lparr>freq := ?f\<rparr>]"
  have il: "i < length nodes"
    using Suc.prems(2) by simp
  have r: "read_u32 s = Inr (?f, drop 4 s)"
    using Suc.prems(1) by (simp add: read_u32_inside)
  have "(le_nat (take 4 (drop (4 * 0) s)) = 0) = (i + 0 \<noteq> v)"
    using Suc.prems(4) by blast
  then have f: "(?f = 0) = (i \<noteq> v)"
    by simp
  have fi: "freq (?nodes ! i) = ?f"
    using il by simp
  have zs: "\<forall>n \<in> set zs. n < length ?nodes \<and> freq (?nodes ! n) = 0 \<and> n < i"
    using Suc.prems(5) il by auto
  have tab: "\<forall>j < k. (le_nat (take 4 (drop (4 * j) (drop 4 s))) = 0) = (i + 1 + j \<noteq> v)"
  proof (intro allI impI)
    fix j assume "j < k"
    then have "Suc j < Suc k"
      by simp
    with Suc.prems(4) have "(le_nat (take 4 (drop (4 * Suc j) s)) = 0) = (i + Suc j \<noteq> v)"
      by blast
    moreover have "drop (4 * j) (drop 4 s) = drop (4 * Suc j) s"
      by (simp add: add.commute)
    ultimately show "(le_nat (take 4 (drop (4 * j) (drop 4 s))) = 0) = (i + 1 + j \<noteq> v)"
      by simp
  qed
  have d: "drop (4 * k) (drop 4 s) = drop (4 * Suc k) s"
    by (simp add: add.commute)
  have step: "seed_nodes (Suc k) i s nodes tree = seed_nodes k (i + 1) (drop 4 s) ?nodes t"
    if "add_node tree ?nodes i = Inr t" for tree t
    using il that by (simp add: r Let_def)
  obtain zs1 where
    t: "add_node (zs @ (if v < i then [v] else [])) ?nodes i = Inr (zs1 @ (if v < i + 1 then [v] else []))"
    and z1: "\<forall>n \<in> set zs1. n < i + 1 \<and> freq (?nodes ! n) = 0"
    and v1: "v < i + 1 \<longrightarrow> 0 < freq (?nodes ! v)"
  proof (cases "i = v")
    case True
    have "add_node zs ?nodes i = Inr (zs @ [i])"
      using il zs by (intro add_node_last) simp_all
    moreover have "0 < freq (?nodes ! v)"
      using True f fi by simp
    moreover have "\<forall>n \<in> set zs. n < i + 1 \<and> freq (?nodes ! n) = 0"
      using zs by auto
    ultimately show ?thesis
      using True that [of zs] by simp
  next
    case False
    then have f0: "freq (?nodes ! i) = 0"
      using f fi by simp
    show ?thesis
    proof (cases "v < i")
      case True
      then have fv: "0 < freq (?nodes ! v)"
        using Suc.prems(6) by simp
      have "add_node (zs @ [v]) ?nodes i = Inr (zs @ [i, v])"
        using il Suc.prems(3) zs f0 fv by (intro add_node_before) simp_all
      moreover have "\<forall>n \<in> set (zs @ [i]). n < i + 1 \<and> freq (?nodes ! n) = 0"
        using zs f0 by auto
      ultimately show ?thesis
        using True fv that [of "zs @ [i]"] by simp
    next
      case False
      have "add_node zs ?nodes i = Inr (zs @ [i])"
        using il zs by (intro add_node_last) simp_all
      moreover have "\<forall>n \<in> set (zs @ [i]). n < i + 1 \<and> freq (?nodes ! n) = 0"
        using zs f0 by auto
      moreover have "\<not> v < i + 1"
        using False \<open>i \<noteq> v\<close> by simp
      ultimately show ?thesis
        using False that [of "zs @ [i]"] by simp
    qed
  qed
  have "\<exists>nodes' zs'. seed_nodes k (i + 1) (drop 4 s) ?nodes (zs1 @ (if v < i + 1 then [v] else []))
       = Inr (drop (4 * k) (drop 4 s), nodes', zs' @ (if v < i + 1 + k then [v] else []))
     \<and> length nodes' = length ?nodes
     \<and> (\<forall>n \<in> set zs'. n < i + 1 + k \<and> freq (nodes' ! n) = 0)
     \<and> (v < i + 1 + k \<longrightarrow> 0 < freq (nodes' ! v))"
    using Suc.prems(1,2,3) tab z1 v1 by (intro Suc.IH) simp_all
  then obtain nodes' zs' where
    "seed_nodes k (i + 1) (drop 4 s) ?nodes (zs1 @ (if v < i + 1 then [v] else []))
       = Inr (drop (4 * Suc k) s, nodes', zs' @ (if v < i + Suc k then [v] else []))"
    and "length nodes' = length nodes"
    and "\<forall>n \<in> set zs'. n < i + Suc k \<and> freq (nodes' ! n) = 0"
    and "v < i + Suc k \<longrightarrow> 0 < freq (nodes' ! v)"
    unfolding d by auto
  then show ?case
    using step [OF t] by auto
qed

lemma merge_single:
  assumes "tree = zs @ [v]" and "zs \<noteq> []"
    and "\<forall>n \<in> set zs. n < last_node \<and> freq (nodes ! n) = 0"
    and "v < last_node" and "0 < freq (nodes ! v)"
    and "last_node + length tree \<le> Suc (length nodes)"
  shows "\<exists>nodes'. merge_nodes nodes tree last_node
      = Inr (nodes', [last_node + length tree - 2], last_node + length tree - 1)
     \<and> length nodes' = length nodes
     \<and> right (nodes' ! (last_node + length tree - 2)) = v"
  using assms
proof (induction nodes tree last_node arbitrary: zs rule: merge_nodes.induct)
  case (1 nodes last_node)
  then show ?case by simp
next
  case (2 nodes n last_node)
  then show ?case by simp
next
  case (3 nodes l r rest last_node)
  let ?nodes = "nodes[last_node := (nodes ! last_node)
                 \<lparr>freq := freq (nodes ! l) + freq (nodes ! r), left := l, right := r\<rparr>]"
  have ll: "last_node < length nodes"
    using "3.prems"(6) by simp
  have all: "\<forall>n \<in> set (l # r # rest). n < last_node"
    using "3.prems"(1,3,4) by auto
  then have b: "l < length nodes" "r < length nodes"
    using ll by simp_all
  have step: "merge_nodes nodes (l # r # rest) last_node = merge_nodes ?nodes t (last_node + 1)"
    if "add_node rest ?nodes last_node = Inr t" for t
    using b ll that by (simp add: Let_def)
  obtain z zs' where zs: "zs = z # zs'"
    using "3.prems"(2) by (cases zs) auto
  show ?case
  proof (cases zs')
    case Nil
    then have e: "l = z" "r = v" "rest = []"
      using "3.prems"(1) zs by simp_all
    have "add_node [] ?nodes last_node = Inr [last_node]"
      using ll by (simp add: add_node_def)
    from step [of "[last_node]"] this e have
      "merge_nodes nodes (l # r # rest) last_node = Inr (?nodes, [last_node], last_node + 1)"
      by simp
    moreover have "right (?nodes ! last_node) = v"
      using ll e by simp
    ultimately show ?thesis
      using e by simp
  next
    case (Cons z2 zs2)
    then have e: "l = z" "r = z2" "rest = zs2 @ [v]"
      using "3.prems"(1) zs by simp_all
    have z0: "freq (nodes ! l) = 0" "freq (nodes ! r) = 0"
      using "3.prems"(3) zs Cons e by simp_all
    have fl: "freq (?nodes ! last_node) = 0"
      using ll z0 by simp
    have keep: "?nodes ! n = nodes ! n" if "n < last_node" for n
      using that by simp
    have zs2: "\<forall>n \<in> set zs2. n < length ?nodes \<and> freq (?nodes ! n) \<le> freq (?nodes ! last_node)"
      using "3.prems"(3) zs Cons ll by auto
    have fv: "freq (?nodes ! last_node) < freq (?nodes ! v)"
      using fl keep [OF "3.prems"(4)] "3.prems"(5) by simp
    have vl: "v < length ?nodes"
      using "3.prems"(4) ll by simp
    have "last_node < length ?nodes"
      using ll by simp
    from add_node_before [OF this vl zs2 fv] have
      t: "add_node rest ?nodes last_node = Inr ((zs2 @ [last_node]) @ [v])"
      using e by simp
    have "\<exists>nodes'. merge_nodes ?nodes ((zs2 @ [last_node]) @ [v]) (last_node + 1)
      = Inr (nodes', [last_node + 1 + length ((zs2 @ [last_node]) @ [v]) - 2],
             last_node + 1 + length ((zs2 @ [last_node]) @ [v]) - 1)
     \<and> length nodes' = length ?nodes
     \<and> right (nodes' ! (last_node + 1 + length ((zs2 @ [last_node]) @ [v]) - 2)) = v"
    proof (rule "3.IH" [OF _ refl t refl])
      show "\<not> (length nodes \<le> l \<or> length nodes \<le> r \<or> length nodes \<le> last_node)"
        using b ll by simp
      show "zs2 @ [last_node] \<noteq> []"
        by simp
      show "\<forall>n \<in> set (zs2 @ [last_node]). n < last_node + 1 \<and> freq (?nodes ! n) = 0"
        using "3.prems"(3) zs Cons ll z0 by auto
      show "v < last_node + 1"
        using "3.prems"(4) by simp
      show "0 < freq (?nodes ! v)"
        using fv by simp
      show "last_node + 1 + length ((zs2 @ [last_node]) @ [v]) \<le> Suc (length ?nodes)"
        using "3.prems"(6) e by simp
    qed
    then show ?thesis
      using step [OF t] e by simp
  qed
qed

lemma single_tree:
  assumes "1032 \<le> length strm" and "v < 256"
    and "\<forall>i < 256. (le_nat (take 4 (drop (8 + 4 * i) strm)) = 0) = (i \<noteq> v)"
  shows "\<exists>tree. create_huffman_tree strm = Inr (tree, le_nat (take 4 strm), drop 1032 strm)
     \<and> length tree = 0x200 \<and> right (tree ! 0x1FE) = v"
proof -
  let ?nodes = "replicate 0x200 \<lparr>freq = 0, left = 0, right = 0\<rparr>"
  let ?s = "drop 8 strm"
  have tab: "\<forall>j < 256. (le_nat (take 4 (drop (4 * j) ?s)) = 0) = (0 + j \<noteq> v)"
  proof (intro allI impI)
    fix j :: nat assume "j < 256"
    with assms(3) have "(le_nat (take 4 (drop (8 + 4 * j) strm)) = 0) = (j \<noteq> v)"
      by blast
    moreover have "drop (4 * j) (drop 8 strm) = drop (8 + 4 * j) strm"
      by (simp add: add.commute)
    ultimately show "(le_nat (take 4 (drop (4 * j) ?s)) = 0) = (0 + j \<noteq> v)"
      by simp
  qed
  have "\<exists>nodes' zs'. seed_nodes 256 0 ?s ?nodes ([] @ (if v < 0 then [v] else []))
       = Inr (drop (4 * 256) ?s, nodes', zs' @ (if v < 0 + 256 then [v] else []))
     \<and> length nodes' = length ?nodes
     \<and> (\<forall>n \<in> set zs'. n < 0 + 256 \<and> freq (nodes' ! n) = 0)
     \<and> (v < 0 + 256 \<longrightarrow> 0 < freq (nodes' ! v))"
    using assms(1,2) tab by (intro seed_single) simp_all
  then obtain nodes1 zs where
    seed: "seed_nodes 256 0 ?s ?nodes [] = Inr (drop 1032 strm, nodes1, zs @ [v])"
    and l1: "length nodes1 = 512"
    and z: "\<forall>n \<in> set zs. n < 256 \<and> freq (nodes1 ! n) = 0"
    and fv: "0 < freq (nodes1 ! v)"
    using assms(2) by auto
  have "\<exists>nodes' tree'. seed_nodes 256 0 ?s ?nodes [] = Inr (drop (4 * 256) ?s, nodes', tree')
     \<and> length nodes' = length ?nodes \<and> length tree' = length ([]::nat list) + 256
     \<and> set tree' = set [] \<union> {0 ..< 0 + 256}"
    using assms(1) by (intro seed_nodes_ok) simp_all
  with seed have lt: "length (zs @ [v]) = 256"
    by auto
  then have ne: "zs \<noteq> []"
    by auto
  have "\<exists>nodes'. merge_nodes nodes1 (zs @ [v]) 256
      = Inr (nodes', [256 + length (zs @ [v]) - 2], 256 + length (zs @ [v]) - 1)
     \<and> length nodes' = length nodes1
     \<and> right (nodes' ! (256 + length (zs @ [v]) - 2)) = v"
    using ne z assms(2) fv l1 lt by (intro merge_single [OF refl]) simp_all
  then obtain nodes2 where
    merge: "merge_nodes nodes1 (zs @ [v]) 256 = Inr (nodes2, [0x1FE], 0x1FF)"
    and l2: "length nodes2 = 512" and rt: "right (nodes2 ! 0x1FE) = v"
    unfolding lt using l1 by auto
  have r: "read_u32 strm = Inr (le_nat (take 4 strm), drop 4 strm)"
    using assms(1) by (simp add: read_u32_inside)
  have d: "drop 4 (drop 4 strm) = drop 8 strm"
    by simp
  have "create_huffman_tree strm = Inr (nodes2, le_nat (take 4 strm), drop 1032 strm)"
    unfolding create_huffman_tree_def Let_def
    by (simp only: r sum.case prod.case d seed merge)
  with l2 rt show ?thesis
    by simp
qed

lemma walk_one:
  assumes "0x1FE < length tree" and "right (tree ! 0x1FE) \<le> 0xFF"
    and "get_next_bit bits = Inr (b, bits')" and "b \<noteq> 0"
  shows "walk tree bits 0x1FE = Some (Inr (right (tree ! 0x1FE), bits'))"
proof -
  have "walk tree bits 0x1FE = walk tree bits' (right (tree ! 0x1FE))"
    using assms(1,3,4) by (subst walk.simps) simp
  also have "\<dots> = Some (Inr (right (tree ! 0x1FE), bits'))"
    using assms(2) by (subst walk.simps) simp
  finally show ?thesis .
qed

lemma le_nat_zeros: "le_nat (replicate n 0) = 0"
  by (induction n) (simp_all add: le_nat_def)

lemma take4_zeros: "4 \<le> m \<Longrightarrow> take 4 (replicate m (0::byte) @ xs) = replicate 4 0"
  by (simp add: min_def)

lemma drop_header: "length h = n \<Longrightarrow> drop (n + k) (h @ t) = drop k t"
  by simp

lemma lone_A_table:
  "\<forall>i < 256. (le_nat (take 4 (drop (8 + 4 * i) (lone_A_stream @ rest))) = 0) = (i \<noteq> 65)"
proof (intro allI impI)
  fix i :: nat assume i: "i < 256"
  let ?t = "replicate 260 (0::byte) @ [0x01, 0x00, 0x00, 0x00] @ replicate 760 0x00 @ rest"
  have "lone_A_stream @ rest = [0x01, 0x00, 0x00, 0x00, 0x00, 0x00, 0x00, 0x00] @ ?t"
    by (simp add: lone_A_stream_def)
  moreover have "drop (8 + 4 * i) ([0x01, 0x00, 0x00, 0x00, 0x00, 0x00, 0x00, 0x00] @ ?t) = drop (4 * i) ?t"
    by (rule drop_header) simp
  ultimately have d: "drop (8 + 4 * i) (lone_A_stream @ rest) = drop (4 * i) ?t"
    by (simp only:)
  consider "i < 65" | "i = 65" | "65 < i" by linarith
  then show "(le_nat (take 4 (drop (8 + 4 * i) (lone_A_stream @ rest))) = 0) = (i \<noteq> 65)"
  proof cases
    case 1
    then have "drop (4 * i) ?t = replicate (260 - 4 * i) 0 @ [0x01, 0x00, 0x00, 0x00] @ replicate 760 0x00 @ rest"
      by simp
    moreover have "4 \<le> 260 - 4 * i"
      using 1 by simp
    ultimately have "take 4 (drop (4 * i) ?t) = replicate 4 0"
      by (simp only: take4_zeros)
    then have "le_nat (take 4 (drop (8 + 4 * i) (lone_A_stream @ rest))) = 0"
      by (simp only: d le_nat_zeros)
    then show ?thesis
      using 1 by (simp only:) simp
  next
    case 2
    then have "take 4 (drop (4 * i) ?t) = [0x01, 0x00, 0x00, 0x00]"
      by simp
    then have "le_nat (take 4 (drop (4 * i) ?t)) = 1"
      by (simp add: le_nat_def)
    then have "le_nat (take 4 (drop (8 + 4 * i) (lone_A_stream @ rest))) = 1"
      by (simp only: d)
    then show ?thesis
      using 2 by (simp only:) simp
  next
    case 3
    then obtain k where k: "4 * i = 264 + k"
      using le_Suc_ex [of 264 "4 * i"] by auto
    have "drop (264 + k) ((replicate 260 (0::byte) @ [0x01, 0x00, 0x00, 0x00]) @ replicate 760 0x00 @ rest)
        = drop k (replicate 760 0x00 @ rest)"
      by (rule drop_header) simp
    moreover have "k \<le> 760"
      using k i by simp
    ultimately have "drop (4 * i) ?t = replicate (760 - k) 0 @ rest"
      by (simp add: k)
    then have "drop (4 * i) ?t = replicate (1024 - 4 * i) 0 @ rest"
      by (simp add: k)
    moreover have "4 \<le> 1024 - 4 * i"
      using i by simp
    ultimately have "take 4 (drop (4 * i) ?t) = replicate 4 0"
      by (simp only: take4_zeros)
    then have "le_nat (take 4 (drop (8 + 4 * i) (lone_A_stream @ rest))) = 0"
      by (simp only: d le_nat_zeros)
    then show ?thesis
      using 3 by (simp only:) simp
  qed
qed

lemma lone_A_size:
  "length (lone_A_stream @ rest) = 1032 + length rest"
  "le_nat (take 4 (lone_A_stream @ rest)) = 1"
  "drop 1032 (lone_A_stream @ rest) = rest"
  by (simp_all add: lone_A_stream_def le_nat_def)

lemma lone_A_length: "length lone_A_stream = 1032"
  by (simp add: lone_A_stream_def)

lemma lone_A_count: "le_nat (take 4 lone_A_stream) = 1"
  by (simp add: lone_A_stream_def le_nat_def)

lemma unpack_huffman_returns:
  assumes "1032 \<le> length strm"
  shows "\<exists>r. unpack_huffman strm = Some r
     \<and> (\<forall>unpacked n bits. r = Inr (unpacked, n, bits) \<longrightarrow>
           n = le_nat (take 4 strm) \<and> length unpacked = n
           \<and> n \<le> bits_read (drop 1032 strm) bits)"
proof -
  let ?n = "le_nat (take 4 strm)"
  let ?bits = "\<lparr>stream = drop 1032 strm, current_byte = 0, bit_position = 8\<rparr>"
  from unpack_huffman_tree [OF assms] obtain tree where
    u: "unpack_huffman strm =
        (case decode_bytes ?n tree ?bits 0 (replicate ?n 0) of None \<Rightarrow> None
         | Some (Inl x) \<Rightarrow> Some (Inl x)
         | Some (Inr (unpacked, bits)) \<Rightarrow> Some (Inr (unpacked, ?n, bits)))"
    by blast
  have "\<exists>r. decode_bytes ?n tree ?bits 0 (replicate ?n 0) = Some r
     \<and> (\<forall>out bits'. r = Inr (out, bits') \<longrightarrow>
           length out = length (replicate ?n (0::byte)) \<and> bits_left bits' + ?n \<le> bits_left ?bits)"
    by (rule decode_bytes_total) simp_all
  then obtain r where
    r: "decode_bytes ?n tree ?bits 0 (replicate ?n 0) = Some r"
    and f: "\<forall>out bits'. r = Inr (out, bits') \<longrightarrow>
           length out = ?n \<and> bits_left bits' + ?n \<le> 8 * length (drop 1032 strm)"
    by (auto simp: bits_left_def)
  show ?thesis
  proof (cases r)
    case (Inl x)
    then show ?thesis
      using u r by simp
  next
    case (Inr p)
    obtain out bits' where p: "p = (out, bits')"
      by (cases p)
    from f Inr p have "length out = ?n" and "bits_left bits' + ?n \<le> 8 * length (drop 1032 strm)"
      by simp_all
    then have "length out = ?n \<and> ?n \<le> bits_read (drop 1032 strm) bits'"
      unfolding bits_read_def by linarith
    then show ?thesis
      using u r Inr p by simp
  qed
qed

lemma unpack_huffman_starved:
  assumes "length strm = 1032" and "0 < le_nat (take 4 strm)"
  shows "unpack_huffman strm = Some (Inl IndexError)"
proof -
  from assms(2) obtain k where k: "le_nat (take 4 strm) = Suc k"
    by (cases "le_nat (take 4 strm)") auto
  from unpack_huffman_tree [of strm] assms(1) obtain tree where
    "unpack_huffman strm =
        (case decode_bytes (Suc k) tree \<lparr>stream = [], current_byte = 0, bit_position = 8\<rparr> 0
                (replicate (Suc k) 0) of None \<Rightarrow> None
         | Some (Inl x) \<Rightarrow> Some (Inl x)
         | Some (Inr (unpacked, bits)) \<Rightarrow> Some (Inr (unpacked, Suc k, bits)))"
    unfolding k by auto
  then show ?thesis
    by (simp only: decode_bytes_starved option.case sum.case)
qed

lemma single_walk:
  assumes "1032 \<le> length strm" and "v < 256"
    and "\<forall>i < 256. (le_nat (take 4 (drop (8 + 4 * i) strm)) = 0) = (i \<noteq> v)"
  shows "\<exists>tree. create_huffman_tree strm = Inr (tree, le_nat (take 4 strm), drop 1032 strm)
     \<and> right (tree ! 0x1FE) = v
     \<and> (\<forall>bits b bits'. get_next_bit bits = Inr (b, bits') \<and> b \<noteq> 0 \<longrightarrow>
           walk tree bits 0x1FE = Some (Inr (v, bits')))"
proof -
  from single_tree [OF assms] obtain tree where
    t: "create_huffman_tree strm = Inr (tree, le_nat (take 4 strm), drop 1032 strm)"
    and l: "length tree = 0x200" and r: "right (tree ! 0x1FE) = v"
    by blast
  have "walk tree bits 0x1FE = Some (Inr (v, bits'))"
    if "get_next_bit bits = Inr (b, bits')" and "b \<noteq> 0" for bits b bits'
    using walk_one [of tree bits b bits'] l r assms(2) that by simp
  with t r show ?thesis
    by blast
qed

text \<open>
  C1 (as amended). When exactly one byte value \<open>v\<close> has a nonzero frequency, the tree is
  not trivial: all 256 leaves are in it, the root 0x1FE is an internal node, and \<open>v\<close> is
  its right child, so a 1 bit decodes \<open>v\<close>. The decoder always comes back, with the
  bytes or with an exception; when it returns \<open>n\<close> bytes it has read at least \<open>n\<close>
  bits, one or more for every byte; and when no packed byte follows the table and
  \<open>n > 0\<close>, its first read of a bit raises \<open>IndexError\<close>.
\<close>

theorem single_symbol_reads_bits:
  assumes "1032 \<le> length strm" and "v < 256"
    and "\<forall>i < 256. (le_nat (take 4 (drop (8 + 4 * i) strm)) = 0) = (i \<noteq> v)"
  shows "(\<exists>tree. create_huffman_tree strm = Inr (tree, le_nat (take 4 strm), drop 1032 strm)
            \<and> right (tree ! 0x1FE) = v
            \<and> (\<forall>bits b bits'. get_next_bit bits = Inr (b, bits') \<and> b \<noteq> 0 \<longrightarrow>
                  walk tree bits 0x1FE = Some (Inr (v, bits'))))
       \<and> (\<exists>r. unpack_huffman strm = Some r
            \<and> (\<forall>unpacked n bits. r = Inr (unpacked, n, bits) \<longrightarrow>
                  n = le_nat (take 4 strm) \<and> length unpacked = n
                  \<and> n \<le> bits_read (drop 1032 strm) bits))
       \<and> (length strm = 1032 \<and> 0 < le_nat (take 4 strm) \<longrightarrow>
            unpack_huffman strm = Some (Inl IndexError))"
  using single_walk [OF assms] unpack_huffman_returns [OF assms(1)] unpack_huffman_starved [of strm]
  by blast

lemma unpack_lone_A:
  "unpack_huffman (lone_A_stream @ [0x01])
     = Some (Inr ([0x41], 1, \<lparr>stream = [], current_byte = 0, bit_position = 1\<rparr>))"
proof -
  let ?bits = "\<lparr>stream = [0x01], current_byte = 0, bit_position = 8\<rparr>"
  let ?bits' = "\<lparr>stream = [], current_byte = 0, bit_position = 1\<rparr>"
  have "1032 \<le> length (lone_A_stream @ [0x01])"
    by (simp add: lone_A_length)
  from single_walk [OF this _ lone_A_table] obtain tree where
    t: "create_huffman_tree (lone_A_stream @ [0x01]) = Inr (tree, 1, [0x01])"
    and w: "\<forall>bits b bits'. get_next_bit bits = Inr (b, bits') \<and> b \<noteq> 0 \<longrightarrow>
           walk tree bits 0x1FE = Some (Inr (65, bits'))"
    by (auto simp: lone_A_size lone_A_length lone_A_count)
  have "get_next_bit ?bits = Inr (1, ?bits') \<and> (1::nat) \<noteq> 0"
    by (simp add: get_next_bit_def)
  with w have "walk tree ?bits 0x1FE = Some (Inr (65, ?bits'))"
    by blast
  then have "decode_bytes (Suc 0) tree ?bits 0 [0] = Some (Inr ([0x41], ?bits'))"
    by (simp add: py_set_def py_index_def)
  then show ?thesis
    by (simp add: unpack_huffman_def t)
qed

theorem single_symbol_reads_bits_witness:
  "(\<exists>tree. create_huffman_tree (lone_A_stream @ [0x01]) = Inr (tree, 1, [0x01])
       \<and> right (tree ! 0x1FE) = 65)
   \<and> unpack_huffman (lone_A_stream @ [0x01])
       = Some (Inr ([0x41], 1, \<lparr>stream = [], current_byte = 0, bit_position = 1\<rparr>))
   \<and> (1::nat) \<le> bits_read [0x01] \<lparr>stream = [], current_byte = 0, bit_position = 1\<rparr>
   \<and> unpack_huffman lone_A_stream = Some (Inl IndexError)"
proof -
  have a: "1032 \<le> length (lone_A_stream @ [0x01])" and b: "1032 \<le> length (lone_A_stream @ [])"
    by (simp_all add: lone_A_length lone_A_count)
  note one = single_symbol_reads_bits [OF a _ lone_A_table]
  note none = single_symbol_reads_bits [OF b _ lone_A_table]
  have "\<exists>tree. create_huffman_tree (lone_A_stream @ [0x01]) = Inr (tree, 1, [0x01])
       \<and> right (tree ! 0x1FE) = 65"
    using one by (auto simp: lone_A_size lone_A_length lone_A_count)
  moreover have "(1::nat) \<le> bits_read [0x01] \<lparr>stream = [], current_byte = 0, bit_position = 1\<rparr>"
    using one unpack_lone_A by (auto simp: lone_A_size lone_A_length lone_A_count)
  moreover have "unpack_huffman lone_A_stream = Some (Inl IndexError)"
    using none by (simp add: lone_A_length lone_A_count)
  ultimately show ?thesis
    using unpack_lone_A by blast
qed

text \<open>
  With the byte 0x41 as the only symbol and one byte to decode, the decoder raises when
  no packed bits follow the table, and reads one bit of the packed byte 0x01 to decode
  the byte.
\<close>

theorem single_symbol_counterexample:
  "unpack_huffman lone_A_stream = Some (Inl IndexError)
   \<and> unpack_huffman (lone_A_stream @ [0x01])
       = Some (Inr ([0x41], 1, \<lparr>stream = [], current_byte = 0, bit_position = 1\<rparr>))
   \<and> bits_read [0x01] \<lparr>stream = [], current_byte = 0, bit_position = 1\<rparr> = 1"
proof -
  have "unpack_huffman (lone_A_stream @ []) = Some (Inl IndexError)"
    by (rule unpack_huffman_starved) (simp_all add: lone_A_length lone_A_count)
  then show ?thesis
    using unpack_lone_A by (simp add: bits_read_def bits_left_def)
qed

section \<open>Nibble swap\<close>

lemma nibble_swap_twice: "nibble_swap (nibble_swap b) = b"
proof -
  have m: "(0x0F :: byte) = mask 4"
    by (simp add: mask_eq_exp_minus_1)
  show ?thesis
    unfolding nibble_swap_def m
  proof (rule bit_word_eqI)
    fix n assume "n < LENGTH(8)"
    then show "bit (drop_bit 4 (drop_bit 4 b OR push_bit 4 (b AND mask 4)) OR
            push_bit 4 ((drop_bit 4 b OR push_bit 4 (b AND mask 4)) AND mask 4)) n = bit b n"
      by (cases "n < 4") (auto simp: bit_simps)
  qed
qed

lemma length_swap_chunk: "length (swap_chunk n pos data) = length data"
  by (induction n arbitrary: pos data) simp_all

lemma swap_chunk_nth:
  "pos + n \<le> length data \<Longrightarrow> i < length data \<Longrightarrow>
   swap_chunk n pos data ! i = (if pos \<le> i \<and> i < pos + n then nibble_swap (data ! i) else data ! i)"
proof (induction n arbitrary: pos data)
  case 0
  then show ?case by auto
next
  case (Suc n)
  let ?d = "data[pos := nibble_swap (data ! pos)]"
  have "swap_chunk n (pos + 1) ?d ! i =
      (if pos + 1 \<le> i \<and> i < pos + 1 + n then nibble_swap (?d ! i) else ?d ! i)"
    using Suc.prems by (intro Suc.IH) simp_all
  then show ?case
    using Suc.prems by (auto simp: nth_list_update)
qed

text \<open>
  C8. The nibble swap of the script decoder is its own inverse: on every byte, on every
  payload taken byte by byte, and as the in-place loop over a chunk that lies inside the
  buffer.
\<close>

theorem nibble_swap_self_inverse:
  "nibble_swap (nibble_swap b) = b
   \<and> map nibble_swap (map nibble_swap payload) = payload
   \<and> (pos + n \<le> length data \<longrightarrow> swap_chunk n pos (swap_chunk n pos data) = data)"
proof (intro conjI impI)
  show "nibble_swap (nibble_swap b) = b"
    by (rule nibble_swap_twice)
  show "map nibble_swap (map nibble_swap payload) = payload"
    by (induction payload) (simp_all add: nibble_swap_twice)
  assume b: "pos + n \<le> length data"
  show "swap_chunk n pos (swap_chunk n pos data) = data"
  proof (rule nth_equalityI)
    show "length (swap_chunk n pos (swap_chunk n pos data)) = length data"
      by (simp add: length_swap_chunk)
    fix i assume "i < length (swap_chunk n pos (swap_chunk n pos data))"
    then have i: "i < length data"
      by (simp add: length_swap_chunk)
    then show "swap_chunk n pos (swap_chunk n pos data) ! i = data ! i"
      using b by (simp add: swap_chunk_nth length_swap_chunk nibble_swap_twice)
  qed
qed

theorem nibble_swap_self_inverse_witness:
  "nibble_swap (nibble_swap 0xA7) = 0xA7
   \<and> map nibble_swap (map nibble_swap [0x12, 0xF0]) = [0x12, 0xF0]
   \<and> swap_chunk 2 1 (swap_chunk 2 1 [0x01, 0x23, 0x45, 0x67]) = [0x01, 0x23, 0x45, 0x67]"
  using nibble_swap_self_inverse [of "0xA7" "[0x12, 0xF0]" 1 2 "[0x01, 0x23, 0x45, 0x67]"]
  by simp

end
